theory Spec2Isabelle
  imports Main
begin

section \<open>Hierarchy builder: \<^verbatim>\<open>get_all_programs_as_tree\<close>\<close>

text \<open>
  The embedding follows \<^verbatim>\<open>src/backend/service_temp.py\<close>. The function reads the list of
  current program dicts (the result of \<^verbatim>\<open>_get_all_program_dicts\<close>), so the model takes
  that list as its argument. A raised exception is a value of type \<open>error\<close>; every call
  of \<^verbatim>\<open>logger.error\<close> and \<^verbatim>\<open>logger.warning\<close> of the function is an entry of the
  returned log, in the order of the calls.
\<close>

datatype error =
    ValueError nat
  | KeyError
  | ValidationError
  | DoesNotExist
  | MultipleObjectsReturned

datatype log_entry =
    Integrity_error nat
  | Candidate_root string string
  | Orphan_found string string string

text \<open>A program dict, with the keys that \<^verbatim>\<open>get_all_programs_as_tree\<close> reads.\<close>

record program_dict =
  p_program_id :: int
  p_program_path :: string
  p_name :: string
  p_expect_software_effort :: bool
  p_description :: string
  p_primary_location :: string
  p_status :: string
  p_organization_leader_name :: string
  p_chief_engineer_name :: string
  p_program_type :: string
  p_program_value :: string

text \<open>
  The node objects. Python's nodes are mutable objects that the parent's \<^verbatim>\<open>children\<close>
  list, the dict \<^verbatim>\<open>id_path_to_node\<close> and the list \<^verbatim>\<open>nodes_by_path\<close> all refer to.
  The model keeps the objects in a store, a list in creation order; a reference to a
  node is its index in that list. Every node the function creates is appended to
  \<^verbatim>\<open>nodes_by_path\<close> exactly once, so that list is the store.
\<close>

record ProgramTreeNode =
  program_name :: string
  program_id :: int
  program_path :: string
  description :: string
  primary_location :: string
  status :: string
  organization_leader_name :: string
  chief_engineer_name :: string
  program_type :: string
  program_value :: string
  children :: "nat list"
  expecting_software_efforts :: bool
  has_descendant_expecting_software_effort :: bool

text \<open>\<^verbatim>\<open>str.split(c)\<close>: the segments between the occurrences of \<open>c\<close>, never an empty list.\<close>

fun split_on :: "char \<Rightarrow> string \<Rightarrow> string list" where
  "split_on c [] = [[]]"
| "split_on c (x # xs) =
     (if x = c then [] # split_on c xs
      else (x # hd (split_on c xs)) # tl (split_on c xs))"

text \<open>\<^verbatim>\<open>c.join(parts)\<close>.\<close>

fun join_on :: "char \<Rightarrow> string list \<Rightarrow> string" where
  "join_on c [] = []"
| "join_on c [s] = s"
| "join_on c (s # t # ss) = s @ c # join_on c (t # ss)"

text \<open>The sort key \<^verbatim>\<open>len(p["program_path"].split("."))\<close>.\<close>

definition path_depth :: "string \<Rightarrow> nat" where
  "path_depth path = length (split_on CHR ''.'' path)"

definition depth :: "program_dict \<Rightarrow> nat" where
  "depth p = path_depth (p_program_path p)"

text \<open>
  \<^verbatim>\<open>get_parent_id_path\<close>: the empty string when the path has no dot, else
  \<^verbatim>\<open>path.rsplit(".", 1)[0]\<close>, the text before the last dot.
\<close>

definition get_parent_id_path :: "string \<Rightarrow> string" where
  "get_parent_id_path path =
     (if CHR ''.'' \<notin> set path then []
      else rev (tl (dropWhile (\<lambda>c. c \<noteq> CHR ''.'') (rev path))))"

text \<open>
  \<^verbatim>\<open>map_to_dto\<close>. The class \<^verbatim>\<open>ProgramTreeNode\<close> is declared outside the sources at
  hand; the fields the constructor call does not pass take their defaults: an empty
  \<^verbatim>\<open>children\<close> list (the code appends to it) and two flags that the caller overwrites
  at once.
\<close>

definition map_to_dto :: "program_dict \<Rightarrow> ProgramTreeNode" where
  "map_to_dto p_dict =
     \<lparr> program_name = p_name p_dict,
       program_id = p_program_id p_dict,
       program_path = p_program_path p_dict,
       description = p_description p_dict,
       primary_location = p_primary_location p_dict,
       status = p_status p_dict,
       organization_leader_name = p_organization_leader_name p_dict,
       chief_engineer_name = p_chief_engineer_name p_dict,
       program_type = p_program_type p_dict,
       program_value = p_program_value p_dict,
       children = [],
       expecting_software_efforts = False,
       has_descendant_expecting_software_effort = False \<rparr>"

text \<open>The three statements that create a root or child node.\<close>

definition new_node :: "program_dict \<Rightarrow> ProgramTreeNode" where
  "new_node p_dict =
     (map_to_dto p_dict)
       \<lparr> expecting_software_efforts := p_expect_software_effort p_dict,
         has_descendant_expecting_software_effort := False \<rparr>"

record tree_state =
  nodes_by_path :: "ProgramTreeNode list"
  id_path_to_node :: "string \<rightharpoonup> nat"
  logged :: "log_entry list"

text \<open>The body of the loop \<^verbatim>\<open>for p_dict in processing_list\<close>.\<close>

definition populate_step :: "program_dict \<Rightarrow> tree_state \<Rightarrow> tree_state" where
  "populate_step p_dict s =
     (let parent_path = get_parent_id_path (p_program_path p_dict) in
      case id_path_to_node s parent_path of
        None \<Rightarrow>
          s\<lparr> logged := logged s @
                [Orphan_found (p_name p_dict) (p_program_path p_dict) parent_path] \<rparr>
      | Some parent \<Rightarrow>
          (let child = length (nodes_by_path s);
               parent_node = nodes_by_path s ! parent
           in s\<lparr> nodes_by_path :=
                    (nodes_by_path s)
                      [parent := parent_node\<lparr> children := children parent_node @ [child] \<rparr>]
                    @ [new_node p_dict],
                  id_path_to_node := (id_path_to_node s)(p_program_path p_dict \<mapsto> child) \<rparr>))"

text \<open>
  The body of the loop \<^verbatim>\<open>for node in reversed(nodes_by_path)\<close>, for the node at index
  \<open>k\<close>. The test \<^verbatim>\<open>if parent_path and parent_path in id_path_to_node\<close> is false for
  the empty string.
\<close>

definition bubble_step :: "nat \<Rightarrow> tree_state \<Rightarrow> tree_state" where
  "bubble_step k s =
     (let node = nodes_by_path s ! k;
          is_relevant = (expecting_software_efforts node \<or>
                         has_descendant_expecting_software_effort node)
      in if is_relevant then
           (let parent_path = get_parent_id_path (program_path node) in
            if parent_path \<noteq> [] then
              (case id_path_to_node s parent_path of
                 None \<Rightarrow> s
               | Some parent \<Rightarrow>
                   s\<lparr> nodes_by_path :=
                        (nodes_by_path s)
                          [parent := (nodes_by_path s ! parent)
                             \<lparr> has_descendant_expecting_software_effort := True \<rparr>] \<rparr>)
            else s)
         else s)"

definition bubble_up :: "tree_state \<Rightarrow> tree_state" where
  "bubble_up s = fold bubble_step (rev [0 ..< length (nodes_by_path s)]) s"

text \<open>The loop that counts the leading records of the sorted list at the first depth.\<close>

definition root_candidates_count :: "program_dict list \<Rightarrow> nat" where
  "root_candidates_count program_data =
     (let first_depth = depth (hd program_data)
      in length (takeWhile (\<lambda>p. depth p = first_depth) program_data))"

text \<open>
  The function. Python's \<^verbatim>\<open>list.sort\<close> is stable, as \<open>sort_key\<close> is. The result is
  the log and either the error raised, or \<open>None\<close>, or the store with the reference to
  the root node.
\<close>

definition get_all_programs_as_tree ::
  "program_dict list \<Rightarrow> log_entry list \<times> (error + (ProgramTreeNode list \<times> nat) option)" where
  "get_all_programs_as_tree all_program_dicts =
     (if all_program_dicts = [] then ([], Inr None)
      else
        (let program_data = sort_key depth all_program_dicts;
             n = root_candidates_count program_data
         in if n > 1 then
              (Integrity_error n #
                 map (\<lambda>p. Candidate_root (p_name p) (p_program_path p)) (take n program_data),
               Inl (ValueError n))
            else
              (let root_data = hd program_data;
                   processing_list = tl program_data;
                   s0 = \<lparr> nodes_by_path = [new_node root_data],
                          id_path_to_node = [p_program_path root_data \<mapsto> 0],
                          logged = [] \<rparr>;
                   s1 = fold populate_step processing_list s0;
                   s2 = bubble_up s1
               in (logged s2, Inr (Some (nodes_by_path s2, 0))))))"

subsection \<open>The earlier copy of the function, \<^verbatim>\<open>src/service_temp.py\<close>\<close>

text \<open>
  The file \<^verbatim>\<open>src/service_temp.py\<close> holds an earlier copy of the service. Its
  \<^verbatim>\<open>get_all_programs_as_tree\<close> sorts by depth, pops the first record as the root
  (``assumes the first one after sort is the root''), attaches every record whose parent
  path is registered and skips the others without a log entry; it has no root check and
  no aggregation pass. Its parent path is \<^verbatim>\<open>".".join(parts)\<close> after \<^verbatim>\<open>parts.pop()\<close>.
  The conversion of a record to a node goes through a serializer that is not among the
  sources; it is the parameter \<open>convert\<close>.
\<close>

definition get_parent_id_path_legacy :: "string \<Rightarrow> string" where
  "get_parent_id_path_legacy path = join_on CHR ''.'' (butlast (split_on CHR ''.'' path))"

definition populate_step_legacy ::
  "(program_dict \<Rightarrow> ProgramTreeNode) \<Rightarrow> program_dict \<Rightarrow> tree_state \<Rightarrow> tree_state" where
  "populate_step_legacy convert program s =
     (let parent_id_path = get_parent_id_path_legacy (p_program_path program) in
      case id_path_to_node s parent_id_path of
        None \<Rightarrow> s
      | Some parent \<Rightarrow>
          (let child = length (nodes_by_path s);
               parent_node = nodes_by_path s ! parent
           in s\<lparr> nodes_by_path :=
                    (nodes_by_path s)
                      [parent := parent_node\<lparr> children := children parent_node @ [child] \<rparr>]
                    @ [convert program],
                  id_path_to_node := (id_path_to_node s)(p_program_path program \<mapsto> child) \<rparr>))"

definition get_all_programs_as_tree_legacy ::
  "(program_dict \<Rightarrow> ProgramTreeNode) \<Rightarrow> program_dict list \<Rightarrow>
   (ProgramTreeNode list \<times> nat) option" where
  "get_all_programs_as_tree_legacy convert all_program_models =
     (if all_program_models = [] then None
      else
        (let program_data = sort_key depth all_program_models;
             root_program = hd program_data;
             s0 = \<lparr> nodes_by_path = [convert root_program],
                    id_path_to_node = [p_program_path root_program \<mapsto> 0],
                    logged = [] \<rparr>;
             s1 = fold (populate_step_legacy convert) (tl program_data) s0
         in Some (nodes_by_path s1, 0)))"

subsection \<open>Notions of the specification\<close>

text \<open>
  The minimum depth present, and the root candidates: the records at that depth, in the
  order of the list.
\<close>

definition min_depth :: "program_dict list \<Rightarrow> nat" where
  "min_depth ps = Min (set (map depth ps))"

definition root_candidates :: "program_dict list \<Rightarrow> program_dict list" where
  "root_candidates ps = filter (\<lambda>p. depth p = min_depth ps) ps"

text \<open>
  The parent path in the words of the specification: the path with its final segment
  removed, the segments being the parts between the dots; the empty string for a path
  of one segment.
\<close>

definition without_final_segment :: "string \<Rightarrow> string" where
  "without_final_segment path = join_on CHR ''.'' (butlast (split_on CHR ''.'' path))"

text \<open>
  The edges of the object graph: \<open>(i, j)\<close> when node \<open>j\<close> is in the \<^verbatim>\<open>children\<close> list
  of node \<open>i\<close>. The nodes of the tree at a reference are those reachable from it; the
  proper descendants of a node are those reachable in one step or more.
\<close>

definition child_rel :: "ProgramTreeNode list \<Rightarrow> (nat \<times> nat) set" where
  "child_rel st = {(i, j). i < length st \<and> j \<in> set (children (st ! i))}"

definition tree_nodes :: "ProgramTreeNode list \<Rightarrow> nat \<Rightarrow> nat set" where
  "tree_nodes st r = {j. (r, j) \<in> (child_rel st)\<^sup>*}"

text \<open>A record with the given path, name and flag, and empty descriptive fields.\<close>

definition program_at :: "string \<Rightarrow> string \<Rightarrow> bool \<Rightarrow> program_dict" where
  "program_at path nm e =
     \<lparr> p_program_id = 0, p_program_path = path, p_name = nm,
       p_expect_software_effort = e, p_description = [], p_primary_location = [],
       p_status = [], p_organization_leader_name = [], p_chief_engineer_name = [],
       p_program_type = [], p_program_value = [] \<rparr>"

subsection \<open>The invariant of the two loops\<close>

text \<open>
  What holds of the store and of \<^verbatim>\<open>id_path_to_node\<close> between two rounds of the loop
  that populates the tree: node \<open>0\<close> is the root and is registered under its path; a
  registered path leads to a node with that path; every other node lies deeper than the
  root; the \<^verbatim>\<open>children\<close> lists hold exactly the nodes whose parent path is registered
  to their owner; and the parent of a node was created before it.
\<close>

definition tree_inv :: "tree_state \<Rightarrow> bool" where
  "tree_inv s \<longleftrightarrow>
     nodes_by_path s \<noteq> [] \<and>
     id_path_to_node s (program_path (nodes_by_path s ! 0)) = Some 0 \<and>
     (\<forall>path i. id_path_to_node s path = Some i \<longrightarrow>
        i < length (nodes_by_path s) \<and> program_path (nodes_by_path s ! i) = path) \<and>
     (\<forall>j. 0 < j \<and> j < length (nodes_by_path s) \<longrightarrow>
        path_depth (program_path (nodes_by_path s ! 0))
          < path_depth (program_path (nodes_by_path s ! j))) \<and>
     (\<forall>i j. i < length (nodes_by_path s) \<longrightarrow>
        (j \<in> set (children (nodes_by_path s ! i)) \<longleftrightarrow>
           0 < j \<and> j < length (nodes_by_path s) \<and>
           id_path_to_node s (get_parent_id_path (program_path (nodes_by_path s ! j))) = Some i)) \<and>
     (\<forall>j. 0 < j \<and> j < length (nodes_by_path s) \<longrightarrow>
        (\<exists>i<j. id_path_to_node s (get_parent_id_path (program_path (nodes_by_path s ! j)))
                 = Some i))"

text \<open>A node without its links and its computed flag: the data it was created from.\<close>

definition node_data :: "ProgramTreeNode \<Rightarrow> ProgramTreeNode" where
  "node_data node = node\<lparr> children := [], has_descendant_expecting_software_effort := False \<rparr>"

text \<open>The warning that the loop logs for a record it skips.\<close>

definition orphan_entry :: "program_dict \<Rightarrow> log_entry" where
  "orphan_entry p = Orphan_found (p_name p) (p_program_path p)
                      (get_parent_id_path (p_program_path p))"

text \<open>
  The state after the loop that populates the tree, when the sorted list has one root
  candidate: the root is the first record of the sorted list, the loop runs over the
  others.
\<close>

definition initial_state :: "program_dict \<Rightarrow> tree_state" where
  "initial_state root_data =
     \<lparr> nodes_by_path = [new_node root_data],
       id_path_to_node = [p_program_path root_data \<mapsto> 0],
       logged = [] \<rparr>"

definition populated :: "program_dict list \<Rightarrow> tree_state" where
  "populated ps =
     fold populate_step (tl (sort_key depth ps)) (initial_state (hd (sort_key depth ps)))"

text \<open>
  A path lies below another when the other is reached from it by taking the parent path
  once or more.
\<close>

inductive path_below :: "string \<Rightarrow> string \<Rightarrow> bool" where
  parent: "CHR ''.'' \<in> set q \<Longrightarrow> path_below q (get_parent_id_path q)"
| above: "CHR ''.'' \<in> set q \<Longrightarrow> path_below (get_parent_id_path q) a \<Longrightarrow> path_below q a"

section \<open>Version resolver and program lookup\<close>

text \<open>
  A row of \<^verbatim>\<open>ProgramCatalogInfoModel\<close>, with the columns that the queries of the
  service read. The model class is declared outside the sources at hand.
  \<open>info_program_active\<close> is the column that the lookup \<^verbatim>\<open>program__active\<close> reads: the
  flag of the program that the row belongs to. A table is the list of its rows in the
  order of the primary key, which is the order in which \<^verbatim>\<open>first()\<close> reads an unordered
  query.
\<close>

record ProgramCatalogInfoModel =
  info_id :: nat
  info_program_id :: int
  info_program_active :: bool
  info_date :: int

text \<open>
  \<^verbatim>\<open>_get_latest_programs\<close> of \<^verbatim>\<open>src/backend/service_temp.py\<close>:
  \<^verbatim>\<open>filter(program__active=True).values("program_id").annotate(latest_date=Max("date"))\<close>.
  The call of \<^verbatim>\<open>values\<close> before \<^verbatim>\<open>annotate\<close> groups the rows by \<^verbatim>\<open>program_id\<close>. The
  aggregation runs over the rows and keeps one entry per group, with the greatest date
  seen so far. The function only reads the table.
\<close>

fun upsert_max :: "int \<Rightarrow> int \<Rightarrow> (int \<times> int) list \<Rightarrow> (int \<times> int) list" where
  "upsert_max k d [] = [(k, d)]"
| "upsert_max k d ((k', d') # groups) =
     (if k = k' then (k', max d' d) # groups else (k', d') # upsert_max k d groups)"

definition group_by_program_id_max :: "ProgramCatalogInfoModel list \<Rightarrow> (int \<times> int) list" where
  "group_by_program_id_max rows =
     fold (\<lambda>row groups. upsert_max (info_program_id row) (info_date row) groups) rows []"

definition get_latest_programs :: "ProgramCatalogInfoModel list \<Rightarrow> (int \<times> int) list" where
  "get_latest_programs table = group_by_program_id_max (filter info_program_active table)"

text \<open>
  \<^verbatim>\<open>_get_latest_programs\<close> of the earlier copy, \<^verbatim>\<open>src/service_temp.py\<close>:
  \<^verbatim>\<open>filter(program__active=True).annotate(latest_date=Max("date")).values("program_id", "latest_date")\<close>.
  Here \<^verbatim>\<open>annotate\<close> comes first, so the aggregate is taken per row of the model (the
  query groups by the primary key) and \<^verbatim>\<open>values\<close> only selects the two columns: every
  active row yields an entry with its own date.
\<close>

definition get_latest_programs_legacy :: "ProgramCatalogInfoModel list \<Rightarrow> (int \<times> int) list" where
  "get_latest_programs_legacy table =
     map (\<lambda>row. (info_program_id row, Max {info_date row})) (filter info_program_active table)"

text \<open>The result of \<^verbatim>\<open>first()\<close>.\<close>

definition first :: "'a list \<Rightarrow> 'a option" where
  "first rows = (case rows of [] \<Rightarrow> None | row # _ \<Rightarrow> Some row)"

text \<open>
  \<^verbatim>\<open>_convert_program_catalog_info_to_dto\<close>. The serializer and the class \<^verbatim>\<open>Program\<close>
  are declared outside the sources at hand, so \<^verbatim>\<open>ProgramCatalogInfoSerializer(m).data\<close>
  and \<^verbatim>\<open>model_validate\<close> are parameters; each may raise. The function is called with
  whatever \<^verbatim>\<open>first()\<close> returned, so its argument may be \<open>None\<close>. Reading the key
  \<^verbatim>\<open>"program"\<close> raises \<^verbatim>\<open>KeyError\<close> when it is absent. The value returned is what
  \<^verbatim>\<open>model_validate\<close> returns, an instance of the class.
\<close>

definition convert_program_catalog_info_to_dto ::
  "(ProgramCatalogInfoModel option \<Rightarrow> error + (string \<rightharpoonup> 'v)) \<Rightarrow>
   ((string \<rightharpoonup> 'v) \<Rightarrow> error + 'program) \<Rightarrow>
   ProgramCatalogInfoModel option \<Rightarrow> error + 'program" where
  "convert_program_catalog_info_to_dto serializer_data model_validate program_model =
     (case serializer_data program_model of
        Inl e \<Rightarrow> Inl e
      | Inr serialized_data \<Rightarrow>
          (case serialized_data ''program'' of
             None \<Rightarrow> Inl KeyError
           | Some program \<Rightarrow> model_validate (serialized_data(''program_id'' \<mapsto> program))))"

text \<open>
  \<^verbatim>\<open>get_program_by_id\<close> and \<^verbatim>\<open>get_program_by_uuid\<close>. The result is the error raised or
  the value returned; a returned \<^verbatim>\<open>None\<close> would be \<open>Inr None\<close>.
\<close>

definition get_program_by_id ::
  "(ProgramCatalogInfoModel option \<Rightarrow> error + (string \<rightharpoonup> 'v)) \<Rightarrow>
   ((string \<rightharpoonup> 'v) \<Rightarrow> error + 'program) \<Rightarrow>
   ProgramCatalogInfoModel list \<Rightarrow> int \<Rightarrow> error + 'program option" where
  "get_program_by_id serializer_data model_validate table ident =
     (let latest_program_info = get_latest_programs table;
          result = filter (\<lambda>row. info_program_active row \<and> info_program_id row = ident \<and>
                      info_date row \<in> set (map snd latest_program_info)) table;
          model = first result
      in case convert_program_catalog_info_to_dto serializer_data model_validate model of
           Inl e \<Rightarrow> Inl e
         | Inr program \<Rightarrow> Inr (Some program))"

definition get_program_by_uuid ::
  "(ProgramCatalogInfoModel option \<Rightarrow> error + (string \<rightharpoonup> 'v)) \<Rightarrow>
   ((string \<rightharpoonup> 'v) \<Rightarrow> error + 'program) \<Rightarrow>
   ProgramCatalogInfoModel list \<Rightarrow> nat \<Rightarrow> error + 'program option" where
  "get_program_by_uuid serializer_data model_validate table ident =
     (let latest_program_info = get_latest_programs table;
          result = filter (\<lambda>row. info_program_active row \<and> info_id row = ident \<and>
                      info_date row \<in> set (map snd latest_program_info)) table;
          model = first result
      in case convert_program_catalog_info_to_dto serializer_data model_validate model of
           Inl e \<Rightarrow> Inl e
         | Inr program \<Rightarrow> Inr (Some program))"

text \<open>
  \<^verbatim>\<open>get_efforts_for_program\<close> up to its test of the program found: the sibling lookup,
  which returns \<^verbatim>\<open>None\<close> when \<^verbatim>\<open>first()\<close> found no row. The efforts of a program that
  was found are read by the parameter \<open>efforts_of\<close>.
\<close>

definition get_efforts_for_program ::
  "(ProgramCatalogInfoModel \<Rightarrow> 'efforts) \<Rightarrow> ProgramCatalogInfoModel list \<Rightarrow> int \<Rightarrow>
   'efforts option" where
  "get_efforts_for_program efforts_of table ident =
     (let latest_program_info = get_latest_programs table;
          program = first (filter (\<lambda>row. info_program_id row = ident \<and>
                      info_date row \<in> set (map snd latest_program_info)) table)
      in case program of
           None \<Rightarrow> None
         | Some p \<Rightarrow> Some (efforts_of p))"

section \<open>Software efforts: the storage\<close>

text \<open>
  The four aspects of an effort. The helper \<^verbatim>\<open>manage_local_profile\<close> is called with a
  model class and the name of the foreign key field; both are fixed by the aspect.
\<close>

datatype aspect =
    Statement_of_work_profile
  | Technical_points_of_contact
  | Developer_setup
  | Work_location

text \<open>
  The model classes are declared outside the sources at hand. A row of a profile table is
  the map from its attribute names to their values; what \<^verbatim>\<open>model_dump()\<close> returns for a
  profile of the payload is the list of its items.
\<close>

type_synonym profile_row = "string \<rightharpoonup> string"

type_synonym profile_data = "(string \<times> string) list"

text \<open>
  The field \<^verbatim>\<open>linked_software_efforts\<close> has one of two shapes: a many-to-many relation,
  here the set of the primary keys of the related efforts, or a list of identifiers,
  whose entries may be \<^verbatim>\<open>None\<close>.
\<close>

datatype linked_field =
    Related "nat set"
  | Identifiers "string option list"

record SoftwareEffortModel =
  pk :: nat
  uuid :: string
  name :: string
  program_catalog_info :: nat
  parent :: "nat option"
  inherit :: "aspect \<Rightarrow> bool"
  local_id :: "aspect \<Rightarrow> nat option"
  linked_software_efforts :: linked_field

text \<open>
  The storage: the table of program records, the table of efforts in the order of the
  primary key, and one table per aspect, from primary key to row. A new row takes the
  next key of its table's sequence.
\<close>

record database =
  program_infos :: "ProgramCatalogInfoModel list"
  efforts :: "SoftwareEffortModel list"
  next_effort_pk :: nat
  profiles :: "aspect \<Rightarrow> nat \<rightharpoonup> profile_row"
  next_profile_pk :: "aspect \<Rightarrow> nat"

text \<open>The values of the loosely typed entries of the payload's list of linked efforts.\<close>

datatype py_value = PyNone | PyStr string | PyInt int

datatype raw_link =
    Item py_value
  | DictItem "(string \<times> py_value) list"

text \<open>The payload, \<^verbatim>\<open>new_effort_data\<close>, with the attributes the function reads.\<close>

record SoftwareEffort =
  data_uuid :: "string option"
  data_name :: string
  data_parent_uuid :: "string option"
  data_inherit :: "aspect \<Rightarrow> bool"
  data_profile :: "aspect \<Rightarrow> profile_data option"
  data_linked_software_efforts :: "raw_link list option"

subsection \<open>Queries and writes\<close>

definition effort_by_uuid :: "database \<Rightarrow> string \<Rightarrow> SoftwareEffortModel option" where
  "effort_by_uuid db u = first (filter (\<lambda>e. uuid e = u) (efforts db))"

definition effort_by_pk :: "database \<Rightarrow> nat \<Rightarrow> SoftwareEffortModel option" where
  "effort_by_pk db k = first (filter (\<lambda>e. pk e = k) (efforts db))"

text \<open>\<^verbatim>\<open>instance.save()\<close> of an effort that has a row: the row with its key is replaced.\<close>

definition save_effort :: "SoftwareEffortModel \<Rightarrow> database \<Rightarrow> database" where
  "save_effort instance db =
     db\<lparr> efforts := map (\<lambda>e. if pk e = pk instance then instance else e) (efforts db) \<rparr>"

text \<open>
  Modelled from the spec: \<^verbatim>\<open>hard_delete()\<close> is a method of the model classes, which are
  not among the sources. The specification says that a hard delete destroys the row
  (``destroy it (hard delete)'', ``hard-deleted, not just unlinked'').
\<close>

definition hard_delete_profile :: "aspect \<Rightarrow> nat \<Rightarrow> database \<Rightarrow> database" where
  "hard_delete_profile X k db = db\<lparr> profiles := (profiles db)(X := (profiles db X)(k := None)) \<rparr>"

definition hard_delete_effort :: "nat \<Rightarrow> database \<Rightarrow> database" where
  "hard_delete_effort k db = db\<lparr> efforts := filter (\<lambda>e. pk e \<noteq> k) (efforts db) \<rparr>"

text \<open>
  \<^verbatim>\<open>getattr(effort_inst, fk_field_name, None)\<close>: the related row, or \<^verbatim>\<open>None\<close> when the
  foreign key is null or leads to no row (the error that Django raises then is an
  \<^verbatim>\<open>AttributeError\<close>, for which \<^verbatim>\<open>getattr\<close> returns its default).
\<close>

definition related_profile :: "database \<Rightarrow> aspect \<Rightarrow> nat option \<Rightarrow> (nat \<times> profile_row) option" where
  "related_profile db X fk =
     (case fk of
        None \<Rightarrow> None
      | Some k \<Rightarrow> (case profiles db X k of None \<Rightarrow> None | Some row \<Rightarrow> Some (k, row)))"

text \<open>The loop \<^verbatim>\<open>for k, v in input_profile_data.model_dump().items(): setattr(...)\<close>.\<close>

definition set_attributes :: "profile_data \<Rightarrow> profile_row \<Rightarrow> profile_row" where
  "set_attributes items row = fold (\<lambda>(k, v) r. r(k \<mapsto> v)) items row"

text \<open>
  \<^verbatim>\<open>_create_effort_relation\<close>: a row is created when the dumped data is a non-empty dict.
  The new row holds the attributes given.
\<close>

definition create_effort_relation ::
  "profile_data option \<Rightarrow> aspect \<Rightarrow> database \<Rightarrow> nat option \<times> database" where
  "create_effort_relation effort_data django_model db =
     (case effort_data of
        None \<Rightarrow> (None, db)
      | Some relation_data \<Rightarrow>
          if relation_data = [] then (None, db)
          else
            (let k = next_profile_pk db django_model
             in (Some k,
                 db\<lparr> profiles := (profiles db)
                        (django_model := (profiles db django_model)
                           (k \<mapsto> set_attributes relation_data Map.empty)),
                     next_profile_pk := (next_profile_pk db)(django_model := Suc k) \<rparr>)))"

text \<open>
  \<^verbatim>\<open>manage_local_profile\<close>: the value to assign to the foreign key, and the storage after
  the call. A profile object of the payload is true in Python whatever it holds, so
  \<^verbatim>\<open>not input_profile_data\<close> holds for \<^verbatim>\<open>None\<close> only.
\<close>

definition manage_local_profile ::
  "SoftwareEffortModel \<Rightarrow> bool \<Rightarrow> profile_data option \<Rightarrow> aspect \<Rightarrow> database \<Rightarrow>
   nat option \<times> database" where
  "manage_local_profile effort_inst inherit_flag input_profile_data X db =
     (let existing_rel = related_profile db X (local_id effort_inst X) in
      if inherit_flag then
        (case existing_rel of
           Some (k, row) \<Rightarrow> (None, hard_delete_profile X k db)
         | None \<Rightarrow> (None, db))
      else
        (case input_profile_data of
           None \<Rightarrow> (map_option fst existing_rel, db)
         | Some items \<Rightarrow>
             (case existing_rel of
                Some (k, row) \<Rightarrow>
                  (Some k,
                   db\<lparr> profiles := (profiles db)
                          (X := (profiles db X)(k \<mapsto> set_attributes items row)) \<rparr>)
              | None \<Rightarrow> create_effort_relation input_profile_data X db)))"

subsection \<open>Linked efforts\<close>

text \<open>Truth of a Python value, and \<^verbatim>\<open>str\<close> of it.\<close>

fun py_truthy :: "py_value \<Rightarrow> bool" where
  "py_truthy PyNone = False"
| "py_truthy (PyStr s) = (s \<noteq> [])"
| "py_truthy (PyInt i) = (i \<noteq> 0)"

definition digit_char :: "nat \<Rightarrow> char" where
  "digit_char d = char_of (48 + d)"

fun str_of_nat :: "nat \<Rightarrow> string" where
  "str_of_nat n = (if n < 10 then [digit_char n] else str_of_nat (n div 10) @ [digit_char (n mod 10)])"

fun py_str :: "py_value \<Rightarrow> string" where
  "py_str PyNone = ''None''"
| "py_str (PyStr s) = s"
| "py_str (PyInt i) = (if i < 0 then CHR ''-'' # str_of_nat (nat (- i)) else str_of_nat (nat i))"

text \<open>
  A string is a list of 8-bit characters here: the code points below 256. Among them
  \<^verbatim>\<open>str.strip()\<close> removes the characters for which \<^verbatim>\<open>str.isspace()\<close> holds: the
  codes 9 to 13, 28 to 32, 133 and 160. \<^verbatim>\<open>str.isdigit()\<close> holds of a string that is not
  empty and whose characters all are digits: the decimal digits, codes 48 to 57, and the
  superscript digits, codes 178, 179 and 185.
\<close>

definition is_space :: "char \<Rightarrow> bool" where
  "is_space c \<longleftrightarrow> of_char c \<in> {9, 10, 11, 12, 13, 28, 29, 30, 31, 32, 133, 160 :: nat}"

definition strip :: "string \<Rightarrow> string" where
  "strip s = rev (dropWhile is_space (rev (dropWhile is_space s)))"

definition is_decimal :: "char \<Rightarrow> bool" where
  "is_decimal c \<longleftrightarrow> 48 \<le> (of_char c :: nat) \<and> (of_char c :: nat) \<le> 57"

definition is_digit :: "char \<Rightarrow> bool" where
  "is_digit c \<longleftrightarrow> is_decimal c \<or> of_char c \<in> {178, 179, 185 :: nat}"

definition isdigit :: "string \<Rightarrow> bool" where
  "isdigit s \<longleftrightarrow> s \<noteq> [] \<and> list_all is_digit s"

text \<open>
  \<^verbatim>\<open>int(s)\<close> of a string for which \<^verbatim>\<open>s.isdigit()\<close> holds, the only strings the function
  passes to it: the number in decimal notation when every character is a decimal digit;
  otherwise the call raises \<^verbatim>\<open>ValueError\<close> (invalid literal for \<^verbatim>\<open>int()\<close> with base 10).
\<close>

datatype int_error = Invalid_literal string

definition int_of_digits :: "string \<Rightarrow> int_error + nat" where
  "int_of_digits s =
     (if list_all is_decimal s then Inr (foldl (\<lambda>n c. 10 * n + (of_char c - 48)) 0 s)
      else Inl (Invalid_literal s))"

text \<open>
  The identifier extracted from an entry: for a dict, \<^verbatim>\<open>str\<close> of the first true value
  under the keys \<^verbatim>\<open>uuid\<close>, \<^verbatim>\<open>id\<close>, \<^verbatim>\<open>pk\<close>, and \<^verbatim>\<open>None\<close> when there is none; for
  anything else, \<^verbatim>\<open>str(raw_item).strip()\<close>.
\<close>

fun first_true_key :: "string list \<Rightarrow> (string \<times> py_value) list \<Rightarrow> string option" where
  "first_true_key [] d = None"
| "first_true_key (k # ks) d =
     (case map_of d k of
        Some v \<Rightarrow> if py_truthy v then Some (py_str v) else first_true_key ks d
      | None \<Rightarrow> first_true_key ks d)"

definition identifier_of :: "raw_link \<Rightarrow> string option" where
  "identifier_of raw_item =
     (case raw_item of
        DictItem d \<Rightarrow> first_true_key [''uuid'', ''id'', ''pk''] d
      | Item v \<Rightarrow> Some (strip (py_str v)))"

text \<open>
  \<^verbatim>\<open>resolve_identifier_to_instance\<close>. The column \<^verbatim>\<open>uuid\<close> is compared as a string. The
  call of \<^verbatim>\<open>int\<close> is not guarded: its error leaves the function.
\<close>

definition resolve_identifier_to_instance ::
  "database \<Rightarrow> string option \<Rightarrow> int_error + SoftwareEffortModel option" where
  "resolve_identifier_to_instance db identifier =
     (case identifier of
        None \<Rightarrow> Inr None
      | Some ident \<Rightarrow>
          if ident = [] then Inr None
          else
            (case effort_by_uuid db ident of
               Some found \<Rightarrow> Inr (Some found)
             | None \<Rightarrow>
                 if isdigit ident then
                   (case int_of_digits ident of
                      Inl e \<Rightarrow> Inl e
                    | Inr n \<Rightarrow> Inr (effort_by_pk db n))
                 else Inr None))"

text \<open>
  The body of the loop \<^verbatim>\<open>for raw_item in raw_links\<close>, and the loop, which an error
  leaves at once.
\<close>

definition resolve_link ::
  "database \<Rightarrow> raw_link \<Rightarrow> SoftwareEffortModel list \<times> string option list \<Rightarrow>
   int_error + SoftwareEffortModel list \<times> string option list" where
  "resolve_link db raw_item acc =
     (let identifier = identifier_of raw_item in
      case resolve_identifier_to_instance db identifier of
        Inl e \<Rightarrow> Inl e
      | Inr (Some target) \<Rightarrow> Inr (fst acc @ [target], snd acc @ [Some (uuid target)])
      | Inr None \<Rightarrow> Inr (fst acc, snd acc @ [identifier]))"

fun resolve_links_from ::
  "database \<Rightarrow> raw_link list \<Rightarrow> SoftwareEffortModel list \<times> string option list \<Rightarrow>
   int_error + SoftwareEffortModel list \<times> string option list" where
  "resolve_links_from db [] acc = Inr acc"
| "resolve_links_from db (raw_item # rest) acc =
     (case resolve_link db raw_item acc of
        Inl e \<Rightarrow> Inl e
      | Inr acc' \<Rightarrow> resolve_links_from db rest acc')"

definition resolve_links ::
  "database \<Rightarrow> raw_link list \<Rightarrow> int_error + SoftwareEffortModel list \<times> string option list" where
  "resolve_links db raw_links = resolve_links_from db raw_links ([], [])"

text \<open>
  The third step of \<^verbatim>\<open>save_efforts_for_program\<close>. Whether the field is a many-to-many
  relation is read from the model's metadata, here the parameter \<open>link_field_is_m2m\<close>.
  \<^verbatim>\<open>set(resolved_targets)\<close> replaces the relation of the effort; in the other shape the
  list of identifiers is assigned and the instance saved. An error of the loop leaves
  the step before anything is written.
\<close>

definition handle_linked_software_efforts ::
  "bool \<Rightarrow> raw_link list option \<Rightarrow> SoftwareEffortModel \<Rightarrow> database \<Rightarrow> int_error + database" where
  "handle_linked_software_efforts link_field_is_m2m raw_links instance db =
     (case raw_links of
        None \<Rightarrow> Inr db
      | Some links \<Rightarrow>
          (case resolve_links db links of
             Inl e \<Rightarrow> Inl e
           | Inr (resolved_targets, resolved_ids) \<Rightarrow>
               if link_field_is_m2m then
                 Inr (db\<lparr> efforts := map (\<lambda>e. if pk e = pk instance
                                        then e\<lparr> linked_software_efforts :=
                                                  Related (set (map pk resolved_targets)) \<rparr>
                                        else e) (efforts db) \<rparr>)
               else
                 Inr (save_effort (instance\<lparr> linked_software_efforts := Identifiers resolved_ids \<rparr>)
                        db)))"

subsection \<open>\<^verbatim>\<open>save_efforts_for_program\<close>\<close>

text \<open>The branch \<^verbatim>\<open>if instance:\<close>, which updates the effort found.\<close>

definition update_effort ::
  "SoftwareEffort \<Rightarrow> ProgramCatalogInfoModel \<Rightarrow> SoftwareEffortModel option \<Rightarrow>
   SoftwareEffortModel \<Rightarrow> database \<Rightarrow> SoftwareEffortModel \<times> database" where
  "update_effort new_effort_data program_instance parent_instance instance db =
     (let instance0 = instance\<lparr> name := data_name new_effort_data,
                                program_catalog_info := info_id program_instance,
                                inherit := data_inherit new_effort_data,
                                parent := map_option pk parent_instance \<rparr>;
          (sow, db1) = manage_local_profile instance0
                         (data_inherit new_effort_data Statement_of_work_profile)
                         (data_profile new_effort_data Statement_of_work_profile)
                         Statement_of_work_profile db;
          instance1 = instance0\<lparr> local_id := (local_id instance0)(Statement_of_work_profile := sow) \<rparr>;
          (tpoc, db2) = manage_local_profile instance1
                         (data_inherit new_effort_data Technical_points_of_contact)
                         (data_profile new_effort_data Technical_points_of_contact)
                         Technical_points_of_contact db1;
          instance2 = instance1\<lparr> local_id := (local_id instance1)(Technical_points_of_contact := tpoc) \<rparr>;
          (dev, db3) = manage_local_profile instance2
                         (data_inherit new_effort_data Developer_setup)
                         (data_profile new_effort_data Developer_setup)
                         Developer_setup db2;
          instance3 = instance2\<lparr> local_id := (local_id instance2)(Developer_setup := dev) \<rparr>;
          (wl, db4) = manage_local_profile instance3
                         (data_inherit new_effort_data Work_location)
                         (data_profile new_effort_data Work_location)
                         Work_location db3;
          instance4 = instance3\<lparr> local_id := (local_id instance3)(Work_location := wl) \<rparr>
      in (instance4, save_effort instance4 db4))"

text \<open>
  The branch \<^verbatim>\<open>else:\<close>, which creates an effort. The payload's UUID is not passed to
  \<^verbatim>\<open>objects.create\<close>; the new row takes the UUID that the model's default gives, the
  parameter \<open>fresh_uuid\<close>, and the empty value of its linked field.
\<close>

definition create_profile_if_local ::
  "SoftwareEffort \<Rightarrow> aspect \<Rightarrow> database \<Rightarrow> nat option \<times> database" where
  "create_profile_if_local new_effort_data X db =
     (if \<not> data_inherit new_effort_data X \<and> data_profile new_effort_data X \<noteq> None
      then create_effort_relation (data_profile new_effort_data X) X db
      else (None, db))"

definition create_effort ::
  "bool \<Rightarrow> string \<Rightarrow> SoftwareEffort \<Rightarrow> ProgramCatalogInfoModel \<Rightarrow> SoftwareEffortModel option \<Rightarrow>
   database \<Rightarrow> SoftwareEffortModel \<times> database" where
  "create_effort link_field_is_m2m fresh_uuid new_effort_data program_instance parent_instance db =
     (let (sow_profile, db1) = create_profile_if_local new_effort_data Statement_of_work_profile db;
          (tech_contacts, db2) = create_profile_if_local new_effort_data Technical_points_of_contact db1;
          (developer_setup, db3) = create_profile_if_local new_effort_data Developer_setup db2;
          (work_location, db4) = create_profile_if_local new_effort_data Work_location db3;
          instance = \<lparr> pk = next_effort_pk db4,
                       uuid = fresh_uuid,
                       name = data_name new_effort_data,
                       program_catalog_info = info_id program_instance,
                       parent = map_option pk parent_instance,
                       inherit = data_inherit new_effort_data,
                       local_id = (\<lambda>X. case X of
                                     Statement_of_work_profile \<Rightarrow> sow_profile
                                   | Technical_points_of_contact \<Rightarrow> tech_contacts
                                   | Developer_setup \<Rightarrow> developer_setup
                                   | Work_location \<Rightarrow> work_location),
                       linked_software_efforts =
                         (if link_field_is_m2m then Related {} else Identifiers []) \<rparr>
      in (instance,
          db4\<lparr> efforts := efforts db4 @ [instance], next_effort_pk := Suc (next_effort_pk db4) \<rparr>))"

text \<open>
  The first two steps inside the transaction: the parent and the effort are looked up by
  UUID, when the payload gives one that is true; a parent that is not found leaves the
  parent unset. Then the effort found is updated, or an effort is created.
\<close>

definition upsert_effort ::
  "bool \<Rightarrow> string \<Rightarrow> SoftwareEffort \<Rightarrow> ProgramCatalogInfoModel \<Rightarrow> database \<Rightarrow>
   SoftwareEffortModel \<times> database" where
  "upsert_effort link_field_is_m2m fresh_uuid new_effort_data program_instance db =
     (let parent_instance =
            (case data_parent_uuid new_effort_data of
               None \<Rightarrow> None
             | Some parent_uuid_val \<Rightarrow>
                 if parent_uuid_val = [] then None else effort_by_uuid db parent_uuid_val);
          instance =
            (case data_uuid new_effort_data of
               None \<Rightarrow> None
             | Some effort_uuid \<Rightarrow>
                 if effort_uuid = [] then None else effort_by_uuid db effort_uuid)
      in case instance of
           Some found \<Rightarrow>
             update_effort new_effort_data program_instance parent_instance found db
         | None \<Rightarrow>
             create_effort link_field_is_m2m fresh_uuid new_effort_data
               program_instance parent_instance db)"

text \<open>
  The function. It returns when the payload is missing or the program is not found.
  The three steps run inside \<^verbatim>\<open>transaction.atomic()\<close>: an error raised there rolls the
  writes back and leaves the function, so the result is the error raised, the storage
  being as before the call, or the storage after the call.
\<close>

definition save_efforts_for_program ::
  "bool \<Rightarrow> string \<Rightarrow> int \<Rightarrow> SoftwareEffort option \<Rightarrow> database \<Rightarrow> int_error + database" where
  "save_efforts_for_program link_field_is_m2m fresh_uuid ident new_effort_data_opt db =
     (case new_effort_data_opt of
        None \<Rightarrow> Inr db
      | Some new_effort_data \<Rightarrow>
          (case first (filter (\<lambda>row. info_program_id row = ident) (program_infos db)) of
             None \<Rightarrow> Inr db
           | Some program_instance \<Rightarrow>
               (let (instance, db1) =
                      upsert_effort link_field_is_m2m fresh_uuid new_effort_data program_instance db
                in handle_linked_software_efforts link_field_is_m2m
                     (data_linked_software_efforts new_effort_data) instance db1)))"

subsection \<open>\<^verbatim>\<open>delete_effort_by_uuid\<close>\<close>

text \<open>
  The storage operations of the function, in the order it performs them, are part of
  its result.
\<close>

datatype storage_op =
    Get_effort string
  | Hard_delete_profile aspect nat
  | Hard_delete_effort nat

text \<open>
  One of the four statements \<^verbatim>\<open>if effort.local_X_id: effort.local_X.hard_delete()\<close>. A
  key is true in Python when it is neither null nor zero. Reading the related object
  raises when the key leads to no row.
\<close>

definition delete_local ::
  "SoftwareEffortModel \<Rightarrow> aspect \<Rightarrow> storage_op list \<times> database \<Rightarrow>
   error + (storage_op list \<times> database)" where
  "delete_local effort X acc =
     (case local_id effort X of
        None \<Rightarrow> Inr acc
      | Some k \<Rightarrow>
          if k = 0 then Inr acc
          else
            (case profiles (snd acc) X k of
               None \<Rightarrow> Inl DoesNotExist
             | Some row \<Rightarrow> Inr (fst acc @ [Hard_delete_profile X k], hard_delete_profile X k (snd acc))))"

text \<open>
  The function. \<^verbatim>\<open>uuid.UUID\<close> of the standard library is the parameter \<open>parse_uuid\<close>:
  \<open>None\<close> where it raises, else the UUID in the form in which the table stores it.
  \<^verbatim>\<open>objects.get\<close> raises when no row or more than one row matches; the function catches
  the first error only. An error inside \<^verbatim>\<open>transaction.atomic()\<close> rolls the writes back
  and leaves the function. The result is the list of storage operations, and the error
  raised or the storage after the call with the value returned.
\<close>

definition delete_effort_by_uuid ::
  "(string \<Rightarrow> string option) \<Rightarrow> string \<Rightarrow> database \<Rightarrow>
   storage_op list \<times> (error + (database \<times> bool))" where
  "delete_effort_by_uuid parse_uuid effort_uuid db =
     (case parse_uuid effort_uuid of
        None \<Rightarrow> ([], Inr (db, False))
      | Some valid_uuid \<Rightarrow>
          (case filter (\<lambda>e. uuid e = valid_uuid) (efforts db) of
             [] \<Rightarrow> ([Get_effort valid_uuid], Inr (db, False))
           | [effort] \<Rightarrow>
               (case delete_local effort Statement_of_work_profile ([Get_effort valid_uuid], db) of
                  Inl e \<Rightarrow> ([Get_effort valid_uuid], Inl e)
                | Inr acc1 \<Rightarrow>
               (case delete_local effort Developer_setup acc1 of
                  Inl e \<Rightarrow> (fst acc1, Inl e)
                | Inr acc2 \<Rightarrow>
               (case delete_local effort Technical_points_of_contact acc2 of
                  Inl e \<Rightarrow> (fst acc2, Inl e)
                | Inr acc3 \<Rightarrow>
               (case delete_local effort Work_location acc3 of
                  Inl e \<Rightarrow> (fst acc3, Inl e)
                | Inr acc4 \<Rightarrow>
                    (fst acc4 @ [Hard_delete_effort (pk effort)],
                     Inr (hard_delete_effort (pk effort) (snd acc4), True))))))
           | _ \<Rightarrow> ([Get_effort valid_uuid], Inl MultipleObjectsReturned)))"

subsection \<open>Notions of the specification and of the proofs\<close>

text \<open>
  What \<^verbatim>\<open>manage_local_profile\<close> does to the table of its aspect, as a function of the
  flag, the data, the foreign key, the table and the next key of its sequence: the new
  foreign key, the new table and the new next key.
\<close>

definition reconcile ::
  "bool \<Rightarrow> profile_data option \<Rightarrow> nat option \<Rightarrow> (nat \<rightharpoonup> profile_row) \<Rightarrow> nat \<Rightarrow>
   nat option \<times> (nat \<rightharpoonup> profile_row) \<times> nat" where
  "reconcile inherit_flag input fk table nxt =
     (let existing = (case fk of
                        None \<Rightarrow> None
                      | Some k \<Rightarrow> (case table k of None \<Rightarrow> None | Some row \<Rightarrow> Some (k, row)))
      in if inherit_flag then
           (case existing of
              Some (k, row) \<Rightarrow> (None, table(k := None), nxt)
            | None \<Rightarrow> (None, table, nxt))
         else
           (case input of
              None \<Rightarrow> (map_option fst existing, table, nxt)
            | Some items \<Rightarrow>
                (case existing of
                   Some (k, row) \<Rightarrow> (Some k, table(k \<mapsto> set_attributes items row), nxt)
                 | None \<Rightarrow>
                     if items = [] then (None, table, nxt)
                     else (Some nxt, table(nxt \<mapsto> set_attributes items Map.empty), Suc nxt))))"

text \<open>
  What the storage engine guarantees of the keys: the primary keys of the efforts are
  distinct, and the keys in use lie below the next key of their sequence.
\<close>

definition keys_consistent :: "database \<Rightarrow> bool" where
  "keys_consistent db \<longleftrightarrow>
     distinct (map pk (efforts db)) \<and>
     list_all (\<lambda>e. pk e < next_effort_pk db) (efforts db) \<and>
     (\<forall>X k. profiles db X k \<noteq> None \<longrightarrow> k < next_profile_pk db X)"

text \<open>
  The effect of the branch that updates an effort, aspect by aspect, and the instance it
  saves.
\<close>

definition reconciled ::
  "SoftwareEffort \<Rightarrow> SoftwareEffortModel \<Rightarrow> database \<Rightarrow> aspect \<Rightarrow>
   nat option \<times> (nat \<rightharpoonup> profile_row) \<times> nat" where
  "reconciled new_effort_data found db X =
     reconcile (data_inherit new_effort_data X) (data_profile new_effort_data X)
       (local_id found X) (profiles db X) (next_profile_pk db X)"

definition updated_instance ::
  "SoftwareEffort \<Rightarrow> ProgramCatalogInfoModel \<Rightarrow> SoftwareEffortModel option \<Rightarrow>
   SoftwareEffortModel \<Rightarrow> database \<Rightarrow> SoftwareEffortModel" where
  "updated_instance new_effort_data program_instance parent_instance found db =
     found\<lparr> name := data_name new_effort_data,
            program_catalog_info := info_id program_instance,
            inherit := data_inherit new_effort_data,
            parent := map_option pk parent_instance,
            local_id := (\<lambda>X. fst (reconciled new_effort_data found db X)) \<rparr>"

text \<open>
  An entry of the payload's list raises when resolving its identifier does. Otherwise it
  has a target, the effort it resolves to, or none; the list of identifiers then holds
  the UUID of the target, or the identifier extracted.
\<close>

definition raises :: "database \<Rightarrow> raw_link \<Rightarrow> bool" where
  "raises db raw_item \<longleftrightarrow> isl (resolve_identifier_to_instance db (identifier_of raw_item))"

definition target_of :: "database \<Rightarrow> raw_link \<Rightarrow> SoftwareEffortModel option" where
  "target_of db raw_item =
     (case resolve_identifier_to_instance db (identifier_of raw_item) of
        Inl e \<Rightarrow> None
      | Inr target \<Rightarrow> target)"

definition stored_identifier :: "database \<Rightarrow> raw_link \<Rightarrow> string option" where
  "stored_identifier db raw_item =
     (case target_of db raw_item of
        Some target \<Rightarrow> Some (uuid target)
      | None \<Rightarrow> identifier_of raw_item)"

text \<open>The storage after the third step, when no entry raises.\<close>

definition stored_links ::
  "bool \<Rightarrow> raw_link list option \<Rightarrow> SoftwareEffortModel \<Rightarrow> database \<Rightarrow> database" where
  "stored_links link_field_is_m2m raw_links saved db =
     (case raw_links of
        None \<Rightarrow> db
      | Some links \<Rightarrow>
          if link_field_is_m2m then
            db\<lparr> efforts := map (\<lambda>e. if pk e = pk saved
                                  then e\<lparr> linked_software_efforts :=
                                            Related (set (map pk (List.map_filter (target_of db) links))) \<rparr>
                                  else e) (efforts db) \<rparr>
          else
            save_effort (saved\<lparr> linked_software_efforts :=
                                  Identifiers (map (stored_identifier db) links) \<rparr>) db)"

subsection \<open>The resolution of linked efforts in the words of the specification\<close>






text \<open>A storage with one program record, numbered 1, and no efforts; a payload.\<close>

definition empty_storage :: database where
  "empty_storage =
     \<lparr> program_infos = [\<lparr> info_id = 1, info_program_id = 1, info_program_active = True,
                           info_date = 0 \<rparr>],
       efforts = [],
       next_effort_pk = 1,
       profiles = (\<lambda>X. Map.empty),
       next_profile_pk = (\<lambda>X. 1) \<rparr>"

definition payload ::
  "string option \<Rightarrow> (aspect \<Rightarrow> bool) \<Rightarrow> (aspect \<Rightarrow> profile_data option) \<Rightarrow>
   raw_link list option \<Rightarrow> SoftwareEffort" where
  "payload u flags datas links =
     \<lparr> data_uuid = u, data_name = ''effort'', data_parent_uuid = None,
       data_inherit = flags, data_profile = datas, data_linked_software_efforts = links \<rparr>"


text \<open>
  A storage with one effort, whose statement of work is local and held by row 1 of its
  table.
\<close>

definition example_effort :: SoftwareEffortModel where
  "example_effort =
     \<lparr> pk = 1, uuid = ''u'', name = ''effort'', program_catalog_info = 1, parent = None,
       inherit = (\<lambda>X. X \<noteq> Statement_of_work_profile),
       local_id = (\<lambda>X. if X = Statement_of_work_profile then Some 1 else None),
       linked_software_efforts = Identifiers [] \<rparr>"

definition example_storage :: database where
  "example_storage =
     \<lparr> program_infos = [\<lparr> info_id = 1, info_program_id = 1, info_program_active = True,
                           info_date = 0 \<rparr>],
       efforts = [example_effort],
       next_effort_pk = 2,
       profiles = (\<lambda>X. if X = Statement_of_work_profile then [1 \<mapsto> [''a'' \<mapsto> ''b'']]
                        else Map.empty),
       next_profile_pk = (\<lambda>X. if X = Statement_of_work_profile then 2 else 1) \<rparr>"

text \<open>
  The deletion of the profile of one aspect, when the effort refers to one: the
  operations performed and the storage afterwards.
\<close>

definition profile_ops :: "SoftwareEffortModel \<Rightarrow> aspect \<Rightarrow> storage_op list" where
  "profile_ops effort X =
     (case local_id effort X of None \<Rightarrow> [] | Some k \<Rightarrow> [Hard_delete_profile X k])"

definition without_profile :: "SoftwareEffortModel \<Rightarrow> aspect \<Rightarrow> database \<Rightarrow> database" where
  "without_profile effort X db =
     (case local_id effort X of None \<Rightarrow> db | Some k \<Rightarrow> hard_delete_profile X k db)"
section \<open>Paths, depths and the sort\<close>

lemma split_on_nonempty: "split_on c xs \<noteq> []"
  by (induction xs) auto

lemma length_split_on: "length (split_on c xs) = Suc (length (filter (\<lambda>x. x = c) xs))"
  by (induction xs) (auto simp: split_on_nonempty)

lemma path_depth_pos: "0 < path_depth path"
  by (simp add: path_depth_def length_split_on)

lemma path_depth_count: "path_depth path = Suc (length (filter (\<lambda>x. x = CHR ''.'') path))"
  by (simp add: path_depth_def length_split_on)

lemma no_dot_depth: "CHR ''.'' \<notin> set path \<longleftrightarrow> path_depth path = 1"
  by (auto simp: path_depth_count filter_empty_conv)

lemma rev_split_dot:
  assumes "c \<in> set xs"
  shows "xs = rev (tl (dropWhile (\<lambda>x. x \<noteq> c) (rev xs))) @ c # rev (takeWhile (\<lambda>x. x \<noteq> c) (rev xs))"
proof -
  let ?P = "\<lambda>x. x \<noteq> c"
  let ?d = "dropWhile ?P (rev xs)"
  from assms have "\<not> (\<forall>x\<in>set (rev xs). ?P x)" by simp
  then have ne: "?d \<noteq> []" by (simp only: dropWhile_eq_Nil_conv not_False_eq_True)
  then have "\<not> ?P (hd ?d)" by (rule hd_dropWhile)
  then have "hd ?d = c" by simp
  with ne have d: "?d = c # tl ?d" by (cases ?d) simp_all
  have "rev xs = takeWhile ?P (rev xs) @ ?d" by simp
  then have "rev xs = takeWhile ?P (rev xs) @ c # tl ?d" using d by simp
  then have "rev (rev xs) = rev (takeWhile ?P (rev xs) @ c # tl ?d)" by (rule arg_cong)
  then show ?thesis by simp
qed

lemma parent_decomp:
  assumes "CHR ''.'' \<in> set path"
  shows "\<exists>s. path = get_parent_id_path path @ CHR ''.'' # s \<and> CHR ''.'' \<notin> set s"
proof -
  have "CHR ''.'' \<notin> set (rev (takeWhile (\<lambda>x. x \<noteq> CHR ''.'') (rev path)))"
    by (auto dest: set_takeWhileD)
  moreover have "path = get_parent_id_path path @ CHR ''.'' #
      rev (takeWhile (\<lambda>x. x \<noteq> CHR ''.'') (rev path))"
    using rev_split_dot[OF assms] assms by (simp add: get_parent_id_path_def)
  ultimately show ?thesis by blast
qed

lemma parent_depth:
  assumes "CHR ''.'' \<in> set path"
  shows "Suc (path_depth (get_parent_id_path path)) = path_depth path"
proof -
  from parent_decomp[OF assms] obtain s where
    p: "path = get_parent_id_path path @ CHR ''.'' # s" and s: "CHR ''.'' \<notin> set s" by blast
  have "filter (\<lambda>x. x = CHR ''.'') s = []" using s by (auto simp: filter_empty_conv)
  then have "length (filter (\<lambda>x. x = CHR ''.'') path)
      = Suc (length (filter (\<lambda>x. x = CHR ''.'') (get_parent_id_path path)))"
    by (subst p) simp
  then show ?thesis by (simp add: path_depth_count)
qed

lemma parent_no_dot: "CHR ''.'' \<notin> set path \<Longrightarrow> get_parent_id_path path = []"
  by (simp add: get_parent_id_path_def)

lemma sorted_takeWhile_filter:
  "sorted (map f xs) \<Longrightarrow> \<forall>x\<in>set xs. (d::nat) \<le> f x \<Longrightarrow>
   takeWhile (\<lambda>x. f x = d) xs = filter (\<lambda>x. f x = d) xs"
proof (induction xs)
  case Nil
  then show ?case by simp
next
  case (Cons x xs)
  show ?case
  proof (cases "f x = d")
    case True
    with Cons show ?thesis by simp
  next
    case False
    with Cons.prems have "\<forall>y\<in>set xs. f y \<noteq> d" by fastforce
    then have "filter (\<lambda>x. f x = d) xs = []" by (simp add: filter_empty_conv)
    with False show ?thesis by simp
  qed
qed

lemma hd_sort_key_Min:
  assumes "xs \<noteq> []"
  shows "f (hd (sort_key f xs)) = Min (set (map f xs))"
proof -
  let ?ys = "sort_key f xs"
  from assms have ne: "?ys \<noteq> []" using length_sort[of f xs] by (cases "sort_key f xs") auto
  have srt: "sorted (map f ?ys)" by (rule sorted_sort_key)
  have "\<forall>y\<in>set ?ys. f (hd ?ys) \<le> f y"
    using srt ne by (cases ?ys) auto
  then have le: "\<forall>y\<in>set xs. f (hd ?ys) \<le> f y" by simp
  have "hd ?ys \<in> set ?ys" using ne by (rule hd_in_set)
  then have "hd ?ys \<in> set xs" by simp
  then have mem: "f (hd ?ys) \<in> set (map f xs)" by simp
  show ?thesis
    by (rule sym, rule Min_eqI) (use le mem in auto)
qed

lemma candidates_sorted:
  assumes "ps \<noteq> []"
  shows "takeWhile (\<lambda>p. depth p = depth (hd (sort_key depth ps))) (sort_key depth ps)
         = root_candidates ps"
proof -
  let ?ys = "sort_key depth ps"
  have d: "depth (hd ?ys) = min_depth ps"
    unfolding min_depth_def by (rule hd_sort_key_Min[OF assms])
  have "\<forall>y\<in>set ?ys. min_depth ps \<le> depth y"
    unfolding min_depth_def by (auto intro!: Min_le)
  then have "takeWhile (\<lambda>p. depth p = min_depth ps) ?ys = filter (\<lambda>p. depth p = min_depth ps) ?ys"
    by (intro sorted_takeWhile_filter sorted_sort_key)
  also have "\<dots> = filter (\<lambda>p. depth p = min_depth ps) ps"
    by (rule sort_key_stable)
  finally show ?thesis by (simp add: d root_candidates_def)
qed

lemma count_candidates:
  "ps \<noteq> [] \<Longrightarrow> root_candidates_count (sort_key depth ps) = length (root_candidates ps)"
  by (simp add: root_candidates_count_def candidates_sorted)

lemma take_candidates:
  assumes "ps \<noteq> []"
  shows "take (length (root_candidates ps)) (sort_key depth ps) = root_candidates ps"
proof -
  let ?P = "\<lambda>p. depth p = depth (hd (sort_key depth ps))"
  have "take (length (takeWhile ?P (sort_key depth ps))) (sort_key depth ps)
        = takeWhile ?P (sort_key depth ps)"
    by (rule takeWhile_eq_take[symmetric])
  then show ?thesis
    using assms by (simp add: candidates_sorted)
qed

lemma multiple_roots_raise:
  assumes "ps \<noteq> []" and "2 \<le> length (root_candidates ps)"
  shows "get_all_programs_as_tree ps =
           (Integrity_error (length (root_candidates ps)) #
              map (\<lambda>p. Candidate_root (p_name p) (p_program_path p)) (root_candidates ps),
            Inl (ValueError (length (root_candidates ps))))"
  using assms
  by (simp add: get_all_programs_as_tree_def Let_def count_candidates take_candidates)

section \<open>Several root candidates\<close>

text \<open>
  C1, on the earlier copy of the function in \<^verbatim>\<open>src/service_temp.py\<close>: given two records
  at the minimum depth, paths \<open>1\<close> and \<open>2\<close>, it raises nothing and logs nothing; it
  returns the tree whose root is the first of them and drops the second. The copy in
  \<^verbatim>\<open>src/backend/service_temp.py\<close> raises on every such list, as
  \<open>multiple_roots_raise\<close> shows.
\<close>

theorem legacy_tree_picks_first_root:
  "get_all_programs_as_tree_legacy new_node
     [program_at ''1'' ''A'' False, program_at ''2'' ''B'' False]
   = Some ([new_node (program_at ''1'' ''A'' False)], 0)"
  by (simp add: get_all_programs_as_tree_legacy_def populate_step_legacy_def
      get_parent_id_path_legacy_def depth_def path_depth_def program_at_def Let_def)

section \<open>The loop that populates the tree\<close>

lemma populate_step_None:
  "id_path_to_node s (get_parent_id_path (p_program_path p)) = None \<Longrightarrow>
   populate_step p s =
     s\<lparr> logged := logged s @
       [Orphan_found (p_name p) (p_program_path p) (get_parent_id_path (p_program_path p))] \<rparr>"
  by (simp add: populate_step_def)

lemma populate_step_Some:
  "id_path_to_node s (get_parent_id_path (p_program_path p)) = Some i \<Longrightarrow>
   populate_step p s =
     s\<lparr> nodes_by_path :=
          (nodes_by_path s)
            [i := (nodes_by_path s ! i)\<lparr> children := children (nodes_by_path s ! i) @
                                                     [length (nodes_by_path s)] \<rparr>]
          @ [new_node p],
        id_path_to_node := (id_path_to_node s)(p_program_path p \<mapsto> length (nodes_by_path s)) \<rparr>"
  by (simp add: populate_step_def Let_def)

lemma new_node_sel:
  "program_path (new_node p) = p_program_path p"
  "children (new_node p) = []"
  "expecting_software_efforts (new_node p) = p_expect_software_effort p"
  "has_descendant_expecting_software_effort (new_node p) = False"
  "program_name (new_node p) = p_name p"
  by (simp_all add: new_node_def map_to_dto_def)

lemma attach_length:
  "length (N[i := (N ! i)\<lparr> children := children (N ! i) @ [length N] \<rparr>] @ [nd]) = Suc (length N)"
  by simp

lemma attach_path:
  "j < length N \<Longrightarrow>
   program_path ((N[i := (N ! i)\<lparr> children := children (N ! i) @ [length N] \<rparr>] @ [nd]) ! j)
   = program_path (N ! j)"
  by (cases "j = i") (simp_all add: nth_append)

lemma attach_last:
  "(N[i := (N ! i)\<lparr> children := children (N ! i) @ [length N] \<rparr>] @ [nd]) ! length N = nd"
  by (simp add: nth_append)

lemma attach_children:
  "j < length N \<Longrightarrow>
   children ((N[i := (N ! i)\<lparr> children := children (N ! i) @ [length N] \<rparr>] @ [nd]) ! j)
   = (if j = i then children (N ! i) @ [length N] else children (N ! j))"
  by (cases "j = i") (simp_all add: nth_append)

lemma attach_expecting:
  "j < length N \<Longrightarrow>
   expecting_software_efforts
     ((N[i := (N ! i)\<lparr> children := children (N ! i) @ [length N] \<rparr>] @ [nd]) ! j)
   = expecting_software_efforts (N ! j)"
  by (cases "j = i") (simp_all add: nth_append)

lemma attach_flag:
  "j < length N \<Longrightarrow>
   has_descendant_expecting_software_effort
     ((N[i := (N ! i)\<lparr> children := children (N ! i) @ [length N] \<rparr>] @ [nd]) ! j)
   = has_descendant_expecting_software_effort (N ! j)"
  by (cases "j = i") (simp_all add: nth_append)

lemma deeper_has_dot: "path_depth a < path_depth b \<Longrightarrow> CHR ''.'' \<in> set b"
  using no_dot_depth[of b] path_depth_pos[of a] by auto

lemma parent_neq_of_depth:
  assumes "CHR ''.'' \<in> set a" "path_depth a \<le> path_depth b"
  shows "get_parent_id_path a \<noteq> b"
  using parent_depth[OF assms(1)] assms(2) by auto

lemma tree_inv_step:
  assumes inv: "tree_inv s"
    and le: "\<forall>j<length (nodes_by_path s). path_depth (program_path (nodes_by_path s ! j)) \<le> depth p"
    and root: "path_depth (program_path (nodes_by_path s ! 0)) < depth p"
  shows "tree_inv (populate_step p s)"
proof (cases "id_path_to_node s (get_parent_id_path (p_program_path p))")
  case None
  then show ?thesis using inv by (simp add: populate_step_None tree_inv_def)
next
  case (Some i0)
  let ?N = "nodes_by_path s" and ?M = "id_path_to_node s"
  let ?n = "length ?N"
  let ?pp = "p_program_path p"
  let ?N' = "?N[i0 := (?N ! i0)\<lparr> children := children (?N ! i0) @ [?n] \<rparr>] @ [new_node p]"
  let ?M' = "?M(?pp \<mapsto> ?n)"
  from inv have ne: "?N \<noteq> []"
    and r0: "?M (program_path (?N ! 0)) = Some 0"
    and reg: "\<And>path i. ?M path = Some i \<Longrightarrow> i < ?n \<and> program_path (?N ! i) = path"
    and deep: "\<And>j. 0 < j \<Longrightarrow> j < ?n \<Longrightarrow>
          path_depth (program_path (?N ! 0)) < path_depth (program_path (?N ! j))"
    and ch: "\<And>i j. i < ?n \<Longrightarrow> (j \<in> set (children (?N ! i)) \<longleftrightarrow>
           0 < j \<and> j < ?n \<and> ?M (get_parent_id_path (program_path (?N ! j))) = Some i)"
    and par: "\<And>j. 0 < j \<Longrightarrow> j < ?n \<Longrightarrow>
        \<exists>i<j. ?M (get_parent_id_path (program_path (?N ! j))) = Some i"
    unfolding tree_inv_def by blast+
  have n0: "0 < ?n" using ne by simp
  have i0: "i0 < ?n" using reg[OF Some] by simp
  have dp: "depth p = path_depth ?pp" by (simp add: depth_def)
  have pdot: "CHR ''.'' \<in> set ?pp" using root dp deeper_has_dot by metis
  have step: "populate_step p s = s\<lparr> nodes_by_path := ?N', id_path_to_node := ?M' \<rparr>"
    using Some by (simp add: populate_step_Some)
  have len: "length ?N' = Suc ?n" by simp
  have path_old: "\<And>j. j < ?n \<Longrightarrow> program_path (?N' ! j) = program_path (?N ! j)"
    by (rule attach_path)
  have path_new: "program_path (?N' ! ?n) = ?pp"
    by (simp only: attach_last new_node_sel)
  have ch_old: "\<And>j. j < ?n \<Longrightarrow> children (?N' ! j) =
      (if j = i0 then children (?N ! i0) @ [?n] else children (?N ! j))"
    by (rule attach_children)
  have ch_new: "children (?N' ! ?n) = []"
    by (simp only: attach_last new_node_sel)
  have root_neq: "program_path (?N ! 0) \<noteq> ?pp" using root dp by auto
  have par_old_neq: "\<And>j. 0 < j \<Longrightarrow> j < ?n \<Longrightarrow> get_parent_id_path (program_path (?N ! j)) \<noteq> ?pp"
  proof -
    fix j assume j: "0 < j" "j < ?n"
    have "CHR ''.'' \<in> set (program_path (?N ! j))" using deep[OF j] deeper_has_dot by blast
    moreover have "path_depth (program_path (?N ! j)) \<le> path_depth ?pp" using le j dp by simp
    ultimately show "get_parent_id_path (program_path (?N ! j)) \<noteq> ?pp"
      by (rule parent_neq_of_depth)
  qed
  have par_new_neq: "get_parent_id_path ?pp \<noteq> ?pp"
    using parent_neq_of_depth[OF pdot] by simp
  have M'_par_old: "\<And>j. 0 < j \<Longrightarrow> j < ?n \<Longrightarrow>
      ?M' (get_parent_id_path (program_path (?N ! j))) = ?M (get_parent_id_path (program_path (?N ! j)))"
    using par_old_neq by simp
  have M'_par_new: "?M' (get_parent_id_path ?pp) = Some i0"
    using par_new_neq Some by simp
  have c1: "?N' \<noteq> []" by simp
  have c2: "?M' (program_path (?N' ! 0)) = Some 0"
    using path_old[OF n0] root_neq r0 by simp
  have c3: "\<forall>path i. ?M' path = Some i \<longrightarrow> i < length ?N' \<and> program_path (?N' ! i) = path"
  proof (intro allI impI)
    fix path i assume a: "?M' path = Some i"
    show "i < length ?N' \<and> program_path (?N' ! i) = path"
    proof (cases "path = ?pp")
      case True
      with a have "i = ?n" by simp
      with True path_new show ?thesis by (simp only: len) simp
    next
      case False
      with a have "?M path = Some i" by simp
      from reg[OF this] path_old show ?thesis by (simp only: len) simp
    qed
  qed
  have c4: "\<forall>j. 0 < j \<and> j < length ?N' \<longrightarrow>
        path_depth (program_path (?N' ! 0)) < path_depth (program_path (?N' ! j))"
  proof (intro allI impI)
    fix j assume a: "0 < j \<and> j < length ?N'"
    show "path_depth (program_path (?N' ! 0)) < path_depth (program_path (?N' ! j))"
    proof (cases "j = ?n")
      case True
      then show ?thesis using path_new path_old[OF n0] root dp by simp
    next
      case False
      with a have j: "0 < j" "j < ?n" by (simp_all only: len) simp_all
      show ?thesis using deep[OF j] path_old[OF n0] path_old[OF j(2)] by simp
    qed
  qed
  have c5: "\<forall>i j. i < length ?N' \<longrightarrow>
        (j \<in> set (children (?N' ! i)) \<longleftrightarrow>
           0 < j \<and> j < length ?N' \<and>
           ?M' (get_parent_id_path (program_path (?N' ! j))) = Some i)"
  proof (intro allI impI)
    fix i j assume "i < length ?N'"
    then have i: "i < ?n \<or> i = ?n" by (simp only: len) auto
    let ?A = "0 < j \<and> j < ?n \<and> ?M (get_parent_id_path (program_path (?N ! j))) = Some i"
    let ?R = "0 < j \<and> j < Suc ?n \<and> ?M' (get_parent_id_path (program_path (?N' ! j))) = Some i"
    have rhs: "?R \<longleftrightarrow> ?A \<or> (j = ?n \<and> i = i0)"
    proof (cases "j < ?n")
      case True
      show ?thesis
      proof (cases "0 < j")
        case pos: True
        have "?M' (get_parent_id_path (program_path (?N' ! j)))
              = ?M (get_parent_id_path (program_path (?N ! j)))"
          using M'_par_old[OF pos True] path_old[OF True] by simp
        then show ?thesis using True pos by simp
      next
        case False
        then show ?thesis using n0 by simp
      qed
    next
      case False
      show ?thesis
      proof (cases "j = ?n")
        case True
        have "?M' (get_parent_id_path (program_path (?N' ! j))) = Some i0"
          using M'_par_new path_new True by simp
        then show ?thesis using True n0 by auto
      next
        case neq: False
        with False have "\<not> j < Suc ?n" by simp
        then show ?thesis using False neq by simp
      qed
    qed
    from i have "j \<in> set (children (?N' ! i)) \<longleftrightarrow> ?R"
    proof
      assume i: "i < ?n"
      have nin: "?n \<notin> set (children (?N ! i))" using ch[OF i, of ?n] by simp
      have lhs: "j \<in> set (children (?N' ! i)) \<longleftrightarrow>
                 j \<in> set (children (?N ! i)) \<or> (i = i0 \<and> j = ?n)"
        using ch_old[OF i] nin by (cases "i = i0") auto
      have old: "j \<in> set (children (?N ! i)) \<longleftrightarrow> ?A" by (rule ch[OF i])
      show ?thesis unfolding rhs lhs old by blast
    next
      assume i: "i = ?n"
      have "\<not> ?A"
      proof
        assume ?A
        then have "?M (get_parent_id_path (program_path (?N ! j))) = Some i" by simp
        from reg[OF this] i show False by simp
      qed
      moreover have "\<not> (j = ?n \<and> i = i0)" using i i0 by simp
      moreover have "j \<notin> set (children (?N' ! i))" using ch_new i by simp
      ultimately show ?thesis unfolding rhs by blast
    qed
    then show "j \<in> set (children (?N' ! i)) \<longleftrightarrow>
           0 < j \<and> j < length ?N' \<and>
           ?M' (get_parent_id_path (program_path (?N' ! j))) = Some i"
      by (simp only: len)
  qed
  have c6: "\<forall>j. 0 < j \<and> j < length ?N' \<longrightarrow>
        (\<exists>i<j. ?M' (get_parent_id_path (program_path (?N' ! j))) = Some i)"
  proof (intro allI impI)
    fix j assume a: "0 < j \<and> j < length ?N'"
    show "\<exists>i<j. ?M' (get_parent_id_path (program_path (?N' ! j))) = Some i"
    proof (cases "j = ?n")
      case True
      then show ?thesis using M'_par_new path_new i0 by auto
    next
      case False
      with a have j: "0 < j" "j < ?n" by (simp_all only: len) simp_all
      from par[OF j] M'_par_old[OF j] path_old[OF j(2)] show ?thesis by simp
    qed
  qed
  have sel: "nodes_by_path (populate_step p s) = ?N'" "id_path_to_node (populate_step p s) = ?M'"
    by (simp_all add: step)
  show ?thesis
    unfolding tree_inv_def sel
    by (intro conjI c1 c2 c3 c4 c5 c6)
qed

lemma populate_step_root_path:
  assumes "nodes_by_path s \<noteq> []"
  shows "program_path (nodes_by_path (populate_step p s) ! 0) = program_path (nodes_by_path s ! 0)"
proof (cases "id_path_to_node s (get_parent_id_path (p_program_path p))")
  case None
  then show ?thesis by (simp add: populate_step_None)
next
  case (Some i)
  let ?N = "nodes_by_path s"
  have sel: "nodes_by_path (populate_step p s) =
      ?N[i := (?N ! i)\<lparr> children := children (?N ! i) @ [length ?N] \<rparr>] @ [new_node p]"
    by (simp add: populate_step_Some[OF Some])
  from assms have "0 < length ?N" by simp
  then show ?thesis
    unfolding sel by (rule attach_path)
qed

lemma populate_step_depth_bound:
  assumes "\<forall>j<length (nodes_by_path s). path_depth (program_path (nodes_by_path s ! j)) \<le> d"
    and "depth p \<le> d"
  shows "\<forall>j<length (nodes_by_path (populate_step p s)).
           path_depth (program_path (nodes_by_path (populate_step p s) ! j)) \<le> d"
proof (cases "id_path_to_node s (get_parent_id_path (p_program_path p))")
  case None
  then show ?thesis using assms by (simp add: populate_step_None)
next
  case (Some i)
  let ?N = "nodes_by_path s"
  let ?N' = "?N[i := (?N ! i)\<lparr> children := children (?N ! i) @ [length ?N] \<rparr>] @ [new_node p]"
  have sel: "nodes_by_path (populate_step p s) = ?N'"
    by (simp add: populate_step_Some[OF Some])
  show ?thesis
    unfolding sel
  proof (intro allI impI)
    fix j assume "j < length ?N'"
    then have "j < length ?N \<or> j = length ?N" by auto
    then show "path_depth (program_path (?N' ! j)) \<le> d"
    proof
      assume j: "j < length ?N"
      then show ?thesis using assms(1) by (simp only: attach_path)
    next
      assume j: "j = length ?N"
      have "program_path (?N' ! length ?N) = p_program_path p"
        by (simp only: attach_last new_node_sel)
      then show ?thesis using assms(2) j by (simp add: depth_def)
    qed
  qed
qed

lemma populate_inv:
  assumes "tree_inv s" and "sorted (map depth xs)"
    and "\<forall>p\<in>set xs. path_depth (program_path (nodes_by_path s ! 0)) < depth p"
    and "\<forall>j<length (nodes_by_path s). \<forall>p\<in>set xs.
           path_depth (program_path (nodes_by_path s ! j)) \<le> depth p"
  shows "tree_inv (fold populate_step xs s)"
  using assms
proof (induction xs arbitrary: s)
  case Nil
  then show ?case by simp
next
  case (Cons p xs)
  let ?s' = "populate_step p s"
  have ne: "nodes_by_path s \<noteq> []" using Cons.prems(1) by (simp add: tree_inv_def)
  have 1: "tree_inv ?s'"
    using Cons.prems by (intro tree_inv_step) simp_all
  have 2: "sorted (map depth xs)" using Cons.prems(2) by simp
  have 3: "\<forall>q\<in>set xs. path_depth (program_path (nodes_by_path ?s' ! 0)) < depth q"
    using Cons.prems(3) by (simp add: populate_step_root_path[OF ne])
  have 4: "\<forall>j<length (nodes_by_path ?s'). \<forall>q\<in>set xs.
           path_depth (program_path (nodes_by_path ?s' ! j)) \<le> depth q"
  proof (intro allI impI ballI)
    fix j q assume j: "j < length (nodes_by_path ?s')" and q: "q \<in> set xs"
    have a: "\<forall>j<length (nodes_by_path s). path_depth (program_path (nodes_by_path s ! j)) \<le> depth q"
      using Cons.prems(4) q by simp
    have b: "depth p \<le> depth q" using Cons.prems(2) q by simp
    from populate_step_depth_bound[OF a b] j
    show "path_depth (program_path (nodes_by_path ?s' ! j)) \<le> depth q" by blast
  qed
  from Cons.IH[OF 1 2 3 4] show ?case by simp
qed

lemma populate_step_map_other:
  "k \<noteq> p_program_path p \<Longrightarrow> id_path_to_node (populate_step p s) k = id_path_to_node s k"
  by (cases "id_path_to_node s (get_parent_id_path (p_program_path p))")
     (simp_all add: populate_step_None populate_step_Some)

lemma populate_map_frozen:
  "\<forall>q\<in>set xs. path_depth k < depth q \<Longrightarrow>
   id_path_to_node (fold populate_step xs s) k = id_path_to_node s k"
proof (induction xs arbitrary: s)
  case Nil
  then show ?case by simp
next
  case (Cons p xs)
  have "k \<noteq> p_program_path p" using Cons.prems by (auto simp: depth_def)
  then show ?case using Cons by (simp add: populate_step_map_other)
qed

lemma node_data_new_node: "node_data (new_node p) = new_node p"
  by (simp add: node_data_def new_node_def map_to_dto_def)

lemma node_data_attach:
  "map node_data (N[i := (N ! i)\<lparr> children := c \<rparr>]) = map node_data N"
proof (cases "i < length N")
  case True
  have "node_data ((N ! i)\<lparr> children := c \<rparr>) = node_data (N ! i)"
    by (simp add: node_data_def)
  then show ?thesis using True by (simp add: map_update list_update_same_conv)
next
  case False
  then show ?thesis by (simp add: list_update_beyond)
qed

lemma populate_step_nodes:
  "map node_data (nodes_by_path (populate_step p s)) =
     map node_data (nodes_by_path s) @
     (if id_path_to_node s (get_parent_id_path (p_program_path p)) = None then []
      else [new_node p])"
proof (cases "id_path_to_node s (get_parent_id_path (p_program_path p))")
  case None
  then show ?thesis by (simp add: populate_step_None)
next
  case (Some i)
  then show ?thesis
    by (simp add: populate_step_Some node_data_attach node_data_new_node)
qed

lemma populate_step_logged:
  "logged (populate_step p s) =
     logged s @
     (if id_path_to_node s (get_parent_id_path (p_program_path p)) = None
      then [orphan_entry p] else [])"
  by (cases "id_path_to_node s (get_parent_id_path (p_program_path p))")
     (simp_all add: populate_step_None populate_step_Some orphan_entry_def)

lemma populate_result:
  assumes "sorted (map depth xs)" and "\<forall>p\<in>set xs. CHR ''.'' \<in> set (p_program_path p)"
  shows "map node_data (nodes_by_path (fold populate_step xs s)) =
           map node_data (nodes_by_path s) @
           map new_node (filter (\<lambda>p. id_path_to_node (fold populate_step xs s)
                                        (get_parent_id_path (p_program_path p)) \<noteq> None) xs)
         \<and> logged (fold populate_step xs s) =
           logged s @
           map orphan_entry (filter (\<lambda>p. id_path_to_node (fold populate_step xs s)
                                        (get_parent_id_path (p_program_path p)) = None) xs)"
  using assms
proof (induction xs arbitrary: s)
  case Nil
  then show ?case by simp
next
  case (Cons p xs)
  let ?s' = "populate_step p s"
  let ?t = "fold populate_step xs ?s'"
  let ?k = "get_parent_id_path (p_program_path p)"
  have dot: "CHR ''.'' \<in> set (p_program_path p)" using Cons.prems(2) by simp
  have lt: "path_depth ?k < depth p"
    using parent_depth[OF dot] by (simp add: depth_def)
  have "\<forall>q\<in>set xs. path_depth ?k < depth q"
    using Cons.prems(1) lt by fastforce
  then have "id_path_to_node ?t ?k = id_path_to_node ?s' ?k"
    by (rule populate_map_frozen)
  also have "\<dots> = id_path_to_node s ?k"
    using lt by (intro populate_step_map_other) (auto simp: depth_def)
  finally have fr: "id_path_to_node ?t ?k = id_path_to_node s ?k" .
  have s: "sorted (map depth xs)" using Cons.prems(1) by simp
  have d: "\<forall>p\<in>set xs. CHR ''.'' \<in> set (p_program_path p)" using Cons.prems(2) by simp
  note IH = Cons.IH[OF s d, of ?s']
  show ?case
    using IH fr by (simp add: populate_step_nodes populate_step_logged)
qed

lemma populate_step_dom:
  "set (map program_path (nodes_by_path s)) = dom (id_path_to_node s) \<Longrightarrow>
   set (map program_path (nodes_by_path (populate_step p s)))
     = dom (id_path_to_node (populate_step p s))"
proof (cases "id_path_to_node s (get_parent_id_path (p_program_path p))")
  case None
  assume "set (map program_path (nodes_by_path s)) = dom (id_path_to_node s)"
  then show ?thesis using None by (simp add: populate_step_None)
next
  case (Some i)
  assume a: "set (map program_path (nodes_by_path s)) = dom (id_path_to_node s)"
  have "map program_path ((nodes_by_path s)[i := (nodes_by_path s ! i)\<lparr> children := c \<rparr>])
        = map program_path (nodes_by_path s)" for c
    by (cases "i < length (nodes_by_path s)")
       (simp_all add: map_update list_update_same_conv list_update_beyond)
  then show ?thesis
    using a by (simp add: populate_step_Some[OF Some] new_node_sel)
qed

lemma populate_dom:
  "set (map program_path (nodes_by_path s)) = dom (id_path_to_node s) \<Longrightarrow>
   set (map program_path (nodes_by_path (fold populate_step xs s)))
     = dom (id_path_to_node (fold populate_step xs s))"
proof (induction xs arbitrary: s)
  case Nil
  then show ?case by simp
next
  case (Cons p xs)
  from Cons.IH[OF populate_step_dom[OF Cons.prems]] show ?case by simp
qed

section \<open>The aggregation loop\<close>

lemma flag_update_sel:
  "length (N[i := (N ! i)\<lparr> has_descendant_expecting_software_effort := b \<rparr>]) = length N"
  "program_path (N[i := (N ! i)\<lparr> has_descendant_expecting_software_effort := b \<rparr>] ! j)
     = program_path (N ! j)"
  "children (N[i := (N ! i)\<lparr> has_descendant_expecting_software_effort := b \<rparr>] ! j)
     = children (N ! j)"
  "expecting_software_efforts (N[i := (N ! i)\<lparr> has_descendant_expecting_software_effort := b \<rparr>] ! j)
     = expecting_software_efforts (N ! j)"
  by (cases "i < length N"; cases "j = i"; simp add: list_update_beyond)+

lemma flag_update_flag:
  "i < length N \<Longrightarrow>
   has_descendant_expecting_software_effort
     (N[i := (N ! i)\<lparr> has_descendant_expecting_software_effort := True \<rparr>] ! j)
   \<longleftrightarrow> has_descendant_expecting_software_effort (N ! j) \<or> j = i"
  by (cases "j = i") simp_all

lemma flag_update_node_data:
  "map node_data (N[i := (N ! i)\<lparr> has_descendant_expecting_software_effort := b \<rparr>])
   = map node_data N"
proof (cases "i < length N")
  case True
  have "node_data ((N ! i)\<lparr> has_descendant_expecting_software_effort := b \<rparr>) = node_data (N ! i)"
    by (simp add: node_data_def)
  then show ?thesis using True by (simp add: map_update list_update_same_conv)
next
  case False
  then show ?thesis by (simp add: list_update_beyond)
qed

lemma tree_inv_flag_update:
  "tree_inv (s\<lparr> nodes_by_path :=
      (nodes_by_path s)[i := (nodes_by_path s ! i)
         \<lparr> has_descendant_expecting_software_effort := b \<rparr>] \<rparr>) = tree_inv s"
  unfolding tree_inv_def
  by (simp add: flag_update_sel)

text \<open>What the invariant says of the parent of a node.\<close>

lemma inv_registered:
  "tree_inv s \<Longrightarrow> id_path_to_node s path = Some i \<Longrightarrow>
   i < length (nodes_by_path s) \<and> program_path (nodes_by_path s ! i) = path"
  unfolding tree_inv_def by blast

lemma inv_deeper:
  "tree_inv s \<Longrightarrow> 0 < j \<Longrightarrow> j < length (nodes_by_path s) \<Longrightarrow>
   path_depth (program_path (nodes_by_path s ! 0)) < path_depth (program_path (nodes_by_path s ! j))"
  unfolding tree_inv_def by blast

lemma inv_children:
  "tree_inv s \<Longrightarrow> i < length (nodes_by_path s) \<Longrightarrow>
   j \<in> set (children (nodes_by_path s ! i)) \<longleftrightarrow>
     0 < j \<and> j < length (nodes_by_path s) \<and>
     id_path_to_node s (get_parent_id_path (program_path (nodes_by_path s ! j))) = Some i"
  unfolding tree_inv_def by blast

lemma inv_parent:
  "tree_inv s \<Longrightarrow> 0 < j \<Longrightarrow> j < length (nodes_by_path s) \<Longrightarrow>
   \<exists>i<j. id_path_to_node s (get_parent_id_path (program_path (nodes_by_path s ! j))) = Some i"
  unfolding tree_inv_def by blast

lemma inv_nonempty: "tree_inv s \<Longrightarrow> 0 < length (nodes_by_path s)"
  unfolding tree_inv_def by simp

lemma inv_depth_ge_root:
  assumes "tree_inv s" "j < length (nodes_by_path s)"
  shows "path_depth (program_path (nodes_by_path s ! 0))
           \<le> path_depth (program_path (nodes_by_path s ! j))"
  using inv_deeper[OF assms(1), of j] assms(2) by (cases "j = 0") auto

lemma inv_root_parent_unregistered:
  assumes inv: "tree_inv s"
    and dot: "CHR ''.'' \<in> set (program_path (nodes_by_path s ! 0))"
  shows "id_path_to_node s (get_parent_id_path (program_path (nodes_by_path s ! 0))) = None"
proof (rule ccontr)
  let ?r = "program_path (nodes_by_path s ! 0)"
  assume "id_path_to_node s (get_parent_id_path ?r) \<noteq> None"
  then obtain i where i: "id_path_to_node s (get_parent_id_path ?r) = Some i" by blast
  from inv_registered[OF inv i] have il: "i < length (nodes_by_path s)"
    and ip: "program_path (nodes_by_path s ! i) = get_parent_id_path ?r" by simp_all
  from inv_depth_ge_root[OF inv il] ip have "path_depth ?r \<le> path_depth (get_parent_id_path ?r)"
    by simp
  with parent_depth[OF dot] show False by simp
qed

lemma inv_parent_path_nonempty:
  assumes inv: "tree_inv s"
    and root: "program_path (nodes_by_path s ! 0) \<noteq> []"
    and i: "id_path_to_node s path = Some i"
  shows "path \<noteq> []"
proof
  assume e: "path = []"
  from inv_registered[OF inv i] have il: "i < length (nodes_by_path s)"
    and ip: "program_path (nodes_by_path s ! i) = path" by simp_all
  have d1: "path_depth path = 1" using e by (simp add: path_depth_count)
  have "i = 0"
  proof (rule ccontr)
    assume "i \<noteq> 0"
    then have "0 < i" by simp
    from inv_deeper[OF inv this il] ip d1 path_depth_pos[of "program_path (nodes_by_path s ! 0)"]
    show False by simp
  qed
  with ip e root show False by simp
qed

text \<open>One round of the aggregation loop.\<close>

lemma bubble_step_effect:
  assumes inv: "tree_inv s"
    and root: "program_path (nodes_by_path s ! 0) \<noteq> []"
    and k: "k < length (nodes_by_path s)"
  shows "tree_inv (bubble_step k s)
     \<and> id_path_to_node (bubble_step k s) = id_path_to_node s
     \<and> logged (bubble_step k s) = logged s
     \<and> length (nodes_by_path (bubble_step k s)) = length (nodes_by_path s)
     \<and> map node_data (nodes_by_path (bubble_step k s)) = map node_data (nodes_by_path s)
     \<and> (\<forall>j. program_path (nodes_by_path (bubble_step k s) ! j) = program_path (nodes_by_path s ! j))
     \<and> (\<forall>j. children (nodes_by_path (bubble_step k s) ! j) = children (nodes_by_path s ! j))
     \<and> (\<forall>j. expecting_software_efforts (nodes_by_path (bubble_step k s) ! j)
              = expecting_software_efforts (nodes_by_path s ! j))
     \<and> (\<forall>i<length (nodes_by_path s).
           has_descendant_expecting_software_effort (nodes_by_path (bubble_step k s) ! i) \<longleftrightarrow>
             has_descendant_expecting_software_effort (nodes_by_path s ! i) \<or>
             (k \<in> set (children (nodes_by_path s ! i)) \<and>
              (expecting_software_efforts (nodes_by_path s ! k) \<or>
               has_descendant_expecting_software_effort (nodes_by_path s ! k))))"
proof -
  let ?N = "nodes_by_path s" and ?M = "id_path_to_node s"
  let ?rel = "expecting_software_efforts (?N ! k) \<or> has_descendant_expecting_software_effort (?N ! k)"
  let ?pp = "get_parent_id_path (program_path (?N ! k))"
  show ?thesis
  proof (cases "?rel \<and> ?pp \<noteq> [] \<and> ?M ?pp \<noteq> None")
    case False
    then have same: "bubble_step k s = s"
      by (auto simp: bubble_step_def Let_def split: option.splits)
    have "\<not> ?rel \<or> (\<forall>i<length ?N. k \<notin> set (children (?N ! i)))"
    proof (cases ?rel)
      case True
      with False have np: "?pp = [] \<or> ?M ?pp = None" by blast
      have "\<forall>i<length ?N. k \<notin> set (children (?N ! i))"
      proof (intro allI impI notI)
        fix i assume i: "i < length ?N" and "k \<in> set (children (?N ! i))"
        then have pos: "0 < k" and reg: "?M ?pp = Some i"
          using inv_children[OF inv i, of k] by simp_all
        from inv_parent_path_nonempty[OF inv root reg] np reg show False by simp
      qed
      then show ?thesis ..
    next
      case False
      then show ?thesis ..
    qed
    then show ?thesis unfolding same using inv by auto
  next
    case True
    then obtain i0 where reg: "?M ?pp = Some i0" by blast
    have i0: "i0 < length ?N" using inv_registered[OF inv reg] by simp
    have step: "bubble_step k s =
        s\<lparr> nodes_by_path := ?N[i0 := (?N ! i0)\<lparr> has_descendant_expecting_software_effort := True \<rparr>] \<rparr>"
      using True reg by (simp add: bubble_step_def Let_def)
    have pos: "0 < k"
    proof (rule ccontr)
      assume "\<not> 0 < k"
      then have k0: "k = 0" by simp
      show False
      proof (cases "CHR ''.'' \<in> set (program_path (?N ! 0))")
        case dot: True
        from inv_root_parent_unregistered[OF inv dot] reg k0 show False by simp
      next
        case False
        then have "?pp = []" using k0 by (simp add: parent_no_dot)
        with True show False by simp
      qed
    qed
    have chk: "\<forall>i<length ?N. k \<in> set (children (?N ! i)) \<longleftrightarrow> i = i0"
      using inv_children[OF inv, of _ k] pos k reg by auto
    have fl: "\<forall>i<length ?N.
           has_descendant_expecting_software_effort
             (?N[i0 := (?N ! i0)\<lparr> has_descendant_expecting_software_effort := True \<rparr>] ! i) \<longleftrightarrow>
             has_descendant_expecting_software_effort (?N ! i) \<or> (k \<in> set (children (?N ! i)) \<and> ?rel)"
      using chk True flag_update_flag[OF i0] by simp
    show ?thesis
      unfolding step
      using inv fl
      by (simp add: tree_inv_flag_update flag_update_sel flag_update_node_data)
  qed
qed

lemma inv_child_gt:
  assumes "tree_inv s" "i < length (nodes_by_path s)" "j \<in> set (children (nodes_by_path s ! i))"
  shows "i < j \<and> j < length (nodes_by_path s)"
proof -
  from inv_children[OF assms(1,2), of j] assms(3)
  have j: "0 < j" "j < length (nodes_by_path s)"
    and r: "id_path_to_node s (get_parent_id_path (program_path (nodes_by_path s ! j))) = Some i"
    by simp_all
  from inv_parent[OF assms(1) j] r show ?thesis using j by auto
qed

lemma bubble_fold:
  assumes inv: "tree_inv s"
    and root: "program_path (nodes_by_path s ! 0) \<noteq> []"
    and clear: "\<forall>i<length (nodes_by_path s).
                  \<not> has_descendant_expecting_software_effort (nodes_by_path s ! i)"
    and d: "d \<le> length (nodes_by_path s)"
  shows "tree_inv (fold bubble_step (rev [length (nodes_by_path s) - d ..< length (nodes_by_path s)]) s)
     \<and> id_path_to_node (fold bubble_step (rev [length (nodes_by_path s) - d ..< length (nodes_by_path s)]) s)
         = id_path_to_node s
     \<and> logged (fold bubble_step (rev [length (nodes_by_path s) - d ..< length (nodes_by_path s)]) s)
         = logged s
     \<and> length (nodes_by_path (fold bubble_step (rev [length (nodes_by_path s) - d ..< length (nodes_by_path s)]) s))
         = length (nodes_by_path s)
     \<and> map node_data (nodes_by_path (fold bubble_step (rev [length (nodes_by_path s) - d ..< length (nodes_by_path s)]) s))
         = map node_data (nodes_by_path s)
     \<and> (\<forall>j. program_path (nodes_by_path (fold bubble_step (rev [length (nodes_by_path s) - d ..< length (nodes_by_path s)]) s) ! j)
              = program_path (nodes_by_path s ! j))
     \<and> (\<forall>j. children (nodes_by_path (fold bubble_step (rev [length (nodes_by_path s) - d ..< length (nodes_by_path s)]) s) ! j)
              = children (nodes_by_path s ! j))
     \<and> (\<forall>j. expecting_software_efforts (nodes_by_path (fold bubble_step (rev [length (nodes_by_path s) - d ..< length (nodes_by_path s)]) s) ! j)
              = expecting_software_efforts (nodes_by_path s ! j))
     \<and> (\<forall>i<length (nodes_by_path s).
           has_descendant_expecting_software_effort
             (nodes_by_path (fold bubble_step (rev [length (nodes_by_path s) - d ..< length (nodes_by_path s)]) s) ! i) \<longleftrightarrow>
           (\<exists>j. length (nodes_by_path s) - d \<le> j \<and> j < length (nodes_by_path s) \<and>
                j \<in> set (children (nodes_by_path s ! i)) \<and>
                (expecting_software_efforts (nodes_by_path s ! j) \<or>
                 has_descendant_expecting_software_effort
                   (nodes_by_path (fold bubble_step (rev [length (nodes_by_path s) - d ..< length (nodes_by_path s)]) s) ! j))))"
  using d
proof (induction d)
  case 0
  then show ?case using inv clear by auto
next
  case (Suc d)
  let ?n = "length (nodes_by_path s)"
  let ?k = "?n - Suc d"
  let ?t = "fold bubble_step (rev [?n - d ..< ?n]) s"
  let ?t' = "bubble_step ?k ?t"
  let ?flag = "\<lambda>u i. has_descendant_expecting_software_effort (nodes_by_path u ! i)"
  let ?exp = "\<lambda>u i. expecting_software_efforts (nodes_by_path u ! i)"
  from Suc.prems have dn: "d \<le> ?n" and k: "?k < ?n" and sk: "Suc ?k = ?n - d" by simp_all
  have upt: "[?k ..< ?n] = ?k # [?n - d ..< ?n]"
    using k sk by (simp add: upt_conv_Cons)
  have fold_eq: "fold bubble_step (rev [?k ..< ?n]) s = ?t'"
    by (simp add: upt)
  note IH = Suc.IH[OF dn]
  from IH have inv_t: "tree_inv ?t" and M_t: "id_path_to_node ?t = id_path_to_node s"
    and log_t: "logged ?t = logged s" and len_t: "length (nodes_by_path ?t) = ?n"
    and data_t: "map node_data (nodes_by_path ?t) = map node_data (nodes_by_path s)"
    and path_t: "\<And>j. program_path (nodes_by_path ?t ! j) = program_path (nodes_by_path s ! j)"
    and ch_t: "\<And>j. children (nodes_by_path ?t ! j) = children (nodes_by_path s ! j)"
    and exp_t: "\<And>j. ?exp ?t j = ?exp s j"
    and flag_t: "\<And>i. i < ?n \<Longrightarrow> ?flag ?t i \<longleftrightarrow>
           (\<exists>j. ?n - d \<le> j \<and> j < ?n \<and> j \<in> set (children (nodes_by_path s ! i)) \<and>
                (?exp s j \<or> ?flag ?t j))"
    by blast+
  have root_t: "program_path (nodes_by_path ?t ! 0) \<noteq> []" using root path_t by simp
  have k_t: "?k < length (nodes_by_path ?t)" using k len_t by simp
  note E = bubble_step_effect[OF inv_t root_t k_t]
  from E have inv_t': "tree_inv ?t'" and M_t': "id_path_to_node ?t' = id_path_to_node ?t"
    and log_t': "logged ?t' = logged ?t"
    and len_t': "length (nodes_by_path ?t') = length (nodes_by_path ?t)"
    and data_t': "map node_data (nodes_by_path ?t') = map node_data (nodes_by_path ?t)"
    and path_t': "\<And>j. program_path (nodes_by_path ?t' ! j) = program_path (nodes_by_path ?t ! j)"
    and ch_t': "\<And>j. children (nodes_by_path ?t' ! j) = children (nodes_by_path ?t ! j)"
    and exp_t': "\<And>j. ?exp ?t' j = ?exp ?t j"
    and flag_t': "\<And>i. i < length (nodes_by_path ?t) \<Longrightarrow> ?flag ?t' i \<longleftrightarrow>
           ?flag ?t i \<or> (?k \<in> set (children (nodes_by_path ?t ! i)) \<and> (?exp ?t ?k \<or> ?flag ?t ?k))"
    by blast+
  have later: "\<And>j. ?k \<le> j \<Longrightarrow> j < ?n \<Longrightarrow> ?flag ?t' j = ?flag ?t j"
  proof -
    fix j assume j: "?k \<le> j" "j < ?n"
    have "?k \<notin> set (children (nodes_by_path ?t ! j))"
    proof
      assume "?k \<in> set (children (nodes_by_path ?t ! j))"
      from inv_child_gt[OF inv_t _ this] j len_t show False by simp
    qed
    then show "?flag ?t' j = ?flag ?t j" using flag_t'[of j] j len_t by simp
  qed
  have flag_final: "\<forall>i<?n. ?flag ?t' i \<longleftrightarrow>
           (\<exists>j. ?k \<le> j \<and> j < ?n \<and> j \<in> set (children (nodes_by_path s ! i)) \<and>
                (?exp s j \<or> ?flag ?t' j))"
  proof (intro allI impI)
    fix i assume i: "i < ?n"
    have split: "\<And>P. (\<exists>j. ?k \<le> j \<and> j < ?n \<and> P j) \<longleftrightarrow> P ?k \<or> (\<exists>j. ?n - d \<le> j \<and> j < ?n \<and> P j)"
    proof -
      fix P
      have "\<And>j. ?k \<le> j \<longleftrightarrow> j = ?k \<or> ?n - d \<le> j" using sk by auto
      then show "(\<exists>j. ?k \<le> j \<and> j < ?n \<and> P j) \<longleftrightarrow> P ?k \<or> (\<exists>j. ?n - d \<le> j \<and> j < ?n \<and> P j)"
        using k by auto
    qed
    have "(\<exists>j. ?k \<le> j \<and> j < ?n \<and> j \<in> set (children (nodes_by_path s ! i)) \<and>
                (?exp s j \<or> ?flag ?t' j))
        \<longleftrightarrow> (\<exists>j. ?k \<le> j \<and> j < ?n \<and> j \<in> set (children (nodes_by_path s ! i)) \<and>
                (?exp s j \<or> ?flag ?t j))"
      using later by blast
    also have "\<dots> \<longleftrightarrow> (?k \<in> set (children (nodes_by_path s ! i)) \<and> (?exp s ?k \<or> ?flag ?t ?k))
        \<or> (\<exists>j. ?n - d \<le> j \<and> j < ?n \<and> j \<in> set (children (nodes_by_path s ! i)) \<and>
                (?exp s j \<or> ?flag ?t j))"
      by (rule split)
    also have "\<dots> \<longleftrightarrow> (?k \<in> set (children (nodes_by_path s ! i)) \<and> (?exp s ?k \<or> ?flag ?t ?k))
        \<or> ?flag ?t i"
      using flag_t[OF i] by simp
    also have "\<dots> \<longleftrightarrow> ?flag ?t' i"
      using flag_t'[of i] i len_t ch_t exp_t by auto
    finally show "?flag ?t' i \<longleftrightarrow>
           (\<exists>j. ?k \<le> j \<and> j < ?n \<and> j \<in> set (children (nodes_by_path s ! i)) \<and>
                (?exp s j \<or> ?flag ?t' j))" by simp
  qed
  show ?case
    unfolding fold_eq
    using inv_t' M_t' M_t log_t' log_t len_t' len_t data_t' data_t path_t' path_t
      ch_t' ch_t exp_t' exp_t flag_final
    by simp
qed

lemma bubble_step_frame:
  "(tree_inv (bubble_step k s) = tree_inv s)
   \<and> id_path_to_node (bubble_step k s) = id_path_to_node s
   \<and> logged (bubble_step k s) = logged s
   \<and> length (nodes_by_path (bubble_step k s)) = length (nodes_by_path s)
   \<and> map node_data (nodes_by_path (bubble_step k s)) = map node_data (nodes_by_path s)
   \<and> (\<forall>j. program_path (nodes_by_path (bubble_step k s) ! j) = program_path (nodes_by_path s ! j))
   \<and> (\<forall>j. children (nodes_by_path (bubble_step k s) ! j) = children (nodes_by_path s ! j))
   \<and> (\<forall>j. expecting_software_efforts (nodes_by_path (bubble_step k s) ! j)
            = expecting_software_efforts (nodes_by_path s ! j))"
proof -
  have "bubble_step k s = s \<or> (\<exists>i. bubble_step k s =
      s\<lparr> nodes_by_path := (nodes_by_path s)[i := (nodes_by_path s ! i)
         \<lparr> has_descendant_expecting_software_effort := True \<rparr>] \<rparr>)"
    by (auto simp: bubble_step_def Let_def split: option.splits)
  then show ?thesis
  proof
    assume "bubble_step k s = s"
    then show ?thesis by simp
  next
    assume "\<exists>i. bubble_step k s =
      s\<lparr> nodes_by_path := (nodes_by_path s)[i := (nodes_by_path s ! i)
         \<lparr> has_descendant_expecting_software_effort := True \<rparr>] \<rparr>"
    then obtain i where "bubble_step k s =
      s\<lparr> nodes_by_path := (nodes_by_path s)[i := (nodes_by_path s ! i)
         \<lparr> has_descendant_expecting_software_effort := True \<rparr>] \<rparr>" ..
    then show ?thesis
      by (simp add: tree_inv_flag_update flag_update_sel flag_update_node_data)
  qed
qed

lemma bubble_fold_frame:
  "(tree_inv (fold bubble_step ks s) = tree_inv s)
   \<and> id_path_to_node (fold bubble_step ks s) = id_path_to_node s
   \<and> logged (fold bubble_step ks s) = logged s
   \<and> length (nodes_by_path (fold bubble_step ks s)) = length (nodes_by_path s)
   \<and> map node_data (nodes_by_path (fold bubble_step ks s)) = map node_data (nodes_by_path s)
   \<and> (\<forall>j. program_path (nodes_by_path (fold bubble_step ks s) ! j) = program_path (nodes_by_path s ! j))
   \<and> (\<forall>j. children (nodes_by_path (fold bubble_step ks s) ! j) = children (nodes_by_path s ! j))
   \<and> (\<forall>j. expecting_software_efforts (nodes_by_path (fold bubble_step ks s) ! j)
            = expecting_software_efforts (nodes_by_path s ! j))"
proof (induction ks arbitrary: s)
  case Nil
  show ?case by simp
next
  case (Cons k ks)
  show ?case using Cons[of "bubble_step k s"] bubble_step_frame[of k s] by simp
qed

lemma bubble_up_frame:
  "(tree_inv (bubble_up s) = tree_inv s)
   \<and> id_path_to_node (bubble_up s) = id_path_to_node s
   \<and> logged (bubble_up s) = logged s
   \<and> length (nodes_by_path (bubble_up s)) = length (nodes_by_path s)
   \<and> map node_data (nodes_by_path (bubble_up s)) = map node_data (nodes_by_path s)
   \<and> (\<forall>j. program_path (nodes_by_path (bubble_up s) ! j) = program_path (nodes_by_path s ! j))
   \<and> (\<forall>j. children (nodes_by_path (bubble_up s) ! j) = children (nodes_by_path s ! j))
   \<and> (\<forall>j. expecting_software_efforts (nodes_by_path (bubble_up s) ! j)
            = expecting_software_efforts (nodes_by_path s ! j))"
  unfolding bubble_up_def by (rule bubble_fold_frame)

lemma bubble_up_flags:
  assumes inv: "tree_inv s"
    and root: "program_path (nodes_by_path s ! 0) \<noteq> []"
    and clear: "\<forall>i<length (nodes_by_path s).
                  \<not> has_descendant_expecting_software_effort (nodes_by_path s ! i)"
    and i: "i < length (nodes_by_path s)"
  shows "has_descendant_expecting_software_effort (nodes_by_path (bubble_up s) ! i) \<longleftrightarrow>
         (\<exists>j\<in>set (children (nodes_by_path (bubble_up s) ! i)).
            expecting_software_efforts (nodes_by_path (bubble_up s) ! j) \<or>
            has_descendant_expecting_software_effort (nodes_by_path (bubble_up s) ! j))"
proof -
  let ?n = "length (nodes_by_path s)"
  have b: "bubble_up s = fold bubble_step (rev [?n - ?n ..< ?n]) s"
    by (simp add: bubble_up_def)
  note F = bubble_fold[OF inv root clear le_refl, folded b]
  from F have ch: "\<And>j. children (nodes_by_path (bubble_up s) ! j) = children (nodes_by_path s ! j)"
    and ex: "\<And>j. expecting_software_efforts (nodes_by_path (bubble_up s) ! j)
              = expecting_software_efforts (nodes_by_path s ! j)"
    and fl: "\<And>i. i < ?n \<Longrightarrow>
       has_descendant_expecting_software_effort (nodes_by_path (bubble_up s) ! i) \<longleftrightarrow>
       (\<exists>j. ?n - ?n \<le> j \<and> j < ?n \<and> j \<in> set (children (nodes_by_path s ! i)) \<and>
            (expecting_software_efforts (nodes_by_path s ! j) \<or>
             has_descendant_expecting_software_effort (nodes_by_path (bubble_up s) ! j)))"
    by blast+
  have "\<And>j. j \<in> set (children (nodes_by_path s ! i)) \<Longrightarrow> j < ?n"
    using inv_child_gt[OF inv i] by simp
  then show ?thesis
    unfolding fl[OF i] ch ex by auto
qed

text \<open>From the flags of the children to the flags of the descendants.\<close>

lemma flags_closure:
  assumes step: "\<And>i. i < length st \<Longrightarrow>
      has_descendant_expecting_software_effort (st ! i) \<longleftrightarrow>
      (\<exists>j\<in>set (children (st ! i)).
         expecting_software_efforts (st ! j) \<or> has_descendant_expecting_software_effort (st ! j))"
    and gt: "\<And>i j. i < length st \<Longrightarrow> j \<in> set (children (st ! i)) \<Longrightarrow> i < j \<and> j < length st"
    and i: "i < length st"
  shows "has_descendant_expecting_software_effort (st ! i) \<longleftrightarrow>
         (\<exists>j. (i, j) \<in> (child_rel st)\<^sup>+ \<and> expecting_software_efforts (st ! j))"
proof
  assume "has_descendant_expecting_software_effort (st ! i)"
  with i show "\<exists>j. (i, j) \<in> (child_rel st)\<^sup>+ \<and> expecting_software_efforts (st ! j)"
  proof (induction "length st - i" arbitrary: i rule: less_induct)
    case less
    from step[OF less.prems(1)] less.prems(2) obtain m where
      m: "m \<in> set (children (st ! i))"
      and d: "expecting_software_efforts (st ! m) \<or> has_descendant_expecting_software_effort (st ! m)"
      by blast
    have e: "(i, m) \<in> child_rel st" using m less.prems(1) by (simp add: child_rel_def)
    from gt[OF less.prems(1) m] have im: "i < m" "m < length st" by simp_all
    from d show ?case
    proof
      assume "expecting_software_efforts (st ! m)"
      with e show ?thesis by blast
    next
      assume f: "has_descendant_expecting_software_effort (st ! m)"
      have "length st - m < length st - i" using im by simp
      from less.hyps[OF this im(2) f] obtain j where
        "(m, j) \<in> (child_rel st)\<^sup>+" "expecting_software_efforts (st ! j)" by blast
      with e show ?thesis by (meson trancl_into_trancl2)
    qed
  qed
next
  assume "\<exists>j. (i, j) \<in> (child_rel st)\<^sup>+ \<and> expecting_software_efforts (st ! j)"
  then obtain j where t: "(i, j) \<in> (child_rel st)\<^sup>+" and e: "expecting_software_efforts (st ! j)"
    by blast
  from t e show "has_descendant_expecting_software_effort (st ! i)"
  proof (induction rule: converse_trancl_induct)
    case (base y)
    then have "y < length st" "j \<in> set (children (st ! y))" by (simp_all add: child_rel_def)
    with step[of y] base.prems show ?case by blast
  next
    case (step y z)
    then have y: "y < length st" "z \<in> set (children (st ! y))" by (simp_all add: child_rel_def)
    from step.IH[OF step.prems] have "has_descendant_expecting_software_effort (st ! z)" .
    with assms(1)[OF y(1)] y(2) show ?case by blast
  qed
qed

lemma tree_nodes_all:
  assumes ne: "0 < length st"
    and gt: "\<And>i j. i < length st \<Longrightarrow> j \<in> set (children (st ! i)) \<Longrightarrow> i < j \<and> j < length st"
    and par: "\<And>j. 0 < j \<Longrightarrow> j < length st \<Longrightarrow> \<exists>i<j. j \<in> set (children (st ! i))"
  shows "tree_nodes st 0 = {0 ..< length st}"
proof (intro set_eqI iffI)
  fix j assume "j \<in> tree_nodes st 0"
  then have "(0, j) \<in> (child_rel st)\<^sup>*" by (simp add: tree_nodes_def)
  then have "j < length st"
  proof (induction rule: rtrancl_induct)
    case base
    show ?case by (rule ne)
  next
    case (step y z)
    then show ?case using gt[of y z] by (simp add: child_rel_def)
  qed
  then show "j \<in> {0 ..< length st}" by simp
next
  fix j assume "j \<in> {0 ..< length st}"
  then have "j < length st" by simp
  then have "(0, j) \<in> (child_rel st)\<^sup>*"
  proof (induction j rule: less_induct)
    case (less j)
    show ?case
    proof (cases "j = 0")
      case True
      then show ?thesis by simp
    next
      case False
      then have "0 < j" by simp
      from par[OF this less.prems] obtain i where i: "i < j" "j \<in> set (children (st ! i))" by blast
      then have il: "i < length st" using less.prems by simp
      from less.IH[OF i(1) il] have "(0, i) \<in> (child_rel st)\<^sup>*" .
      moreover have "(i, j) \<in> child_rel st" using i(2) il by (simp add: child_rel_def)
      ultimately show ?thesis by (rule rtrancl_into_rtrancl)
    qed
  qed
  then show "j \<in> tree_nodes st 0" by (simp add: tree_nodes_def)
qed

section \<open>Lists with one root candidate\<close>

lemma root_candidates_nonempty:
  assumes "ps \<noteq> []"
  shows "root_candidates ps \<noteq> []"
proof -
  have "Min (set (map depth ps)) \<in> set (map depth ps)"
    using assms by (intro Min_in) simp_all
  then obtain p where "p \<in> set ps" "depth p = min_depth ps"
    by (auto simp: min_depth_def)
  then show ?thesis by (auto simp: root_candidates_def filter_empty_conv)
qed

lemma unique_root_sorted:
  assumes "root_candidates ps = [r]"
  shows "ps \<noteq> []"
    and "sort_key depth ps = r # tl (sort_key depth ps)"
    and "\<forall>q\<in>set (tl (sort_key depth ps)). depth r < depth q"
    and "sorted (map depth (tl (sort_key depth ps)))"
proof -
  let ?ys = "sort_key depth ps"
  show ne: "ps \<noteq> []" using assms by (auto simp: root_candidates_def)
  have tw: "takeWhile (\<lambda>p. depth p = depth (hd ?ys)) ?ys = [r]"
    using candidates_sorted[OF ne] assms by simp
  then have "?ys \<noteq> []" by auto
  then obtain y rest where ys: "?ys = y # rest" by (cases ?ys) auto
  with tw have "y = r" by (simp split: if_splits)
  with ys show hd: "?ys = r # tl ?ys" by simp
  have srt: "sorted (map depth ?ys)" by (rule sorted_sort_key)
  then show "sorted (map depth (tl ?ys))" by (subst (asm) hd) simp
  have md: "min_depth ps = depth r"
    using hd_sort_key_Min[OF ne, of depth] hd by (simp add: min_depth_def) (metis list.sel(1))
  have "filter (\<lambda>p. depth p = depth r) ?ys = filter (\<lambda>p. depth p = depth r) ps"
    by (rule sort_key_stable)
  also have "\<dots> = [r]" using assms md by (simp add: root_candidates_def)
  finally have "filter (\<lambda>p. depth p = depth r) (r # tl ?ys) = [r]" using hd by simp
  then have "filter (\<lambda>p. depth p = depth r) (tl ?ys) = []" by simp
  then have neq: "\<forall>q\<in>set (tl ?ys). depth q \<noteq> depth r" by (simp add: filter_empty_conv)
  have "\<forall>q\<in>set (tl ?ys). depth r \<le> depth q"
    using srt by (subst (asm) hd) simp
  with neq show "\<forall>q\<in>set (tl ?ys). depth r < depth q" by fastforce
qed

lemma tree_inv_initial: "tree_inv (initial_state r)"
  by (auto simp: tree_inv_def initial_state_def new_node_sel)

lemma populate_step_clear:
  assumes "\<forall>nd\<in>set (nodes_by_path s). \<not> has_descendant_expecting_software_effort nd"
  shows "\<forall>nd\<in>set (nodes_by_path (populate_step p s)).
           \<not> has_descendant_expecting_software_effort nd"
proof (cases "id_path_to_node s (get_parent_id_path (p_program_path p))")
  case None
  then show ?thesis using assms by (simp add: populate_step_None)
next
  case (Some i)
  let ?N = "nodes_by_path s"
  let ?x = "(?N ! i)\<lparr> children := children (?N ! i) @ [length ?N] \<rparr>"
  show ?thesis
  proof (cases "i < length ?N")
    case True
    then have "\<not> has_descendant_expecting_software_effort ?x" using assms by simp
    moreover have "set (?N[i := ?x]) \<subseteq> insert ?x (set ?N)" by (rule set_update_subset_insert)
    ultimately show ?thesis
      using assms by (auto simp: populate_step_Some[OF Some] new_node_sel)
  next
    case False
    then show ?thesis
      using assms by (auto simp: populate_step_Some[OF Some] new_node_sel list_update_beyond)
  qed
qed

lemma populate_clear:
  "\<forall>nd\<in>set (nodes_by_path s). \<not> has_descendant_expecting_software_effort nd \<Longrightarrow>
   \<forall>nd\<in>set (nodes_by_path (fold populate_step xs s)).
      \<not> has_descendant_expecting_software_effort nd"
proof (induction xs arbitrary: s)
  case Nil
  then show ?case by simp
next
  case (Cons p xs)
  from Cons.IH[OF populate_step_clear[OF Cons.prems]] show ?case by simp
qed

lemma populate_root_path:
  "nodes_by_path s \<noteq> [] \<Longrightarrow>
   nodes_by_path (fold populate_step xs s) \<noteq> [] \<and>
   program_path (nodes_by_path (fold populate_step xs s) ! 0) = program_path (nodes_by_path s ! 0)"
proof (induction xs arbitrary: s)
  case Nil
  then show ?case by simp
next
  case (Cons p xs)
  have "map node_data (nodes_by_path (populate_step p s)) \<noteq> []"
    using Cons.prems by (simp add: populate_step_nodes)
  then have ne: "nodes_by_path (populate_step p s) \<noteq> []" by simp
  from Cons.IH[OF ne] populate_step_root_path[OF Cons.prems] show ?case by simp
qed

text \<open>The state after the loop that populates the tree, for a list with one root candidate.\<close>

lemma populated_facts:
  assumes "root_candidates ps = [r]"
  shows "tree_inv (populated ps)"
    and "\<forall>i<length (nodes_by_path (populated ps)).
           \<not> has_descendant_expecting_software_effort (nodes_by_path (populated ps) ! i)"
    and "set (map program_path (nodes_by_path (populated ps))) = dom (id_path_to_node (populated ps))"
    and "program_path (nodes_by_path (populated ps) ! 0) = p_program_path r"
    and "map node_data (nodes_by_path (populated ps)) =
           new_node r #
           map new_node (filter (\<lambda>p. id_path_to_node (populated ps)
                                        (get_parent_id_path (p_program_path p)) \<noteq> None)
                            (tl (sort_key depth ps)))"
    and "logged (populated ps) =
           map orphan_entry (filter (\<lambda>p. id_path_to_node (populated ps)
                                        (get_parent_id_path (p_program_path p)) = None)
                               (tl (sort_key depth ps)))"
proof -
  let ?rest = "tl (sort_key depth ps)"
  note U = unique_root_sorted[OF assms]
  have hd: "hd (sort_key depth ps) = r" by (subst U(2)) simp
  have pop: "populated ps = fold populate_step ?rest (initial_state r)"
    by (simp add: populated_def hd)
  have N0: "nodes_by_path (initial_state r) = [new_node r]"
    and M0: "id_path_to_node (initial_state r) = [p_program_path r \<mapsto> 0]"
    and L0: "logged (initial_state r) = []"
    by (simp_all add: initial_state_def)
  have lt: "\<forall>p\<in>set ?rest. path_depth (program_path (nodes_by_path (initial_state r) ! 0)) < depth p"
    using U(3) by (simp add: N0 new_node_sel depth_def)
  have le: "\<forall>j<length (nodes_by_path (initial_state r)). \<forall>p\<in>set ?rest.
           path_depth (program_path (nodes_by_path (initial_state r) ! j)) \<le> depth p"
    using U(3) by (auto simp: N0 new_node_sel depth_def less_imp_le)
  show "tree_inv (populated ps)"
    unfolding pop by (rule populate_inv[OF tree_inv_initial U(4) lt le])
  have "\<forall>nd\<in>set (nodes_by_path (populated ps)). \<not> has_descendant_expecting_software_effort nd"
    unfolding pop by (rule populate_clear) (simp add: N0 new_node_sel)
  then show "\<forall>i<length (nodes_by_path (populated ps)).
           \<not> has_descendant_expecting_software_effort (nodes_by_path (populated ps) ! i)"
    by simp
  show "set (map program_path (nodes_by_path (populated ps))) = dom (id_path_to_node (populated ps))"
    unfolding pop by (rule populate_dom) (simp add: N0 M0 new_node_sel)
  show "program_path (nodes_by_path (populated ps) ! 0) = p_program_path r"
    unfolding pop using populate_root_path[of "initial_state r" ?rest]
    by (simp add: N0 new_node_sel)
  have dots: "\<forall>p\<in>set ?rest. CHR ''.'' \<in> set (p_program_path p)"
  proof
    fix p assume "p \<in> set ?rest"
    with U(3) have "path_depth (p_program_path r) < path_depth (p_program_path p)"
      by (simp add: depth_def)
    then show "CHR ''.'' \<in> set (p_program_path p)" by (rule deeper_has_dot)
  qed
  note R = populate_result[OF U(4) dots, of "initial_state r", folded pop]
  from R show "map node_data (nodes_by_path (populated ps)) =
           new_node r #
           map new_node (filter (\<lambda>p. id_path_to_node (populated ps)
                                        (get_parent_id_path (p_program_path p)) \<noteq> None) ?rest)"
    by (simp add: N0 node_data_new_node)
  from R show "logged (populated ps) =
           map orphan_entry (filter (\<lambda>p. id_path_to_node (populated ps)
                                        (get_parent_id_path (p_program_path p)) = None) ?rest)"
    by (simp add: L0)
qed

lemma tree_result_unique_root:
  assumes "root_candidates ps = [r]"
  shows "get_all_programs_as_tree ps =
           (logged (bubble_up (populated ps)),
            Inr (Some (nodes_by_path (bubble_up (populated ps)), 0)))"
proof -
  note U = unique_root_sorted[OF assms]
  have "root_candidates_count (sort_key depth ps) = 1"
    using count_candidates[OF U(1)] assms by simp
  then show ?thesis
    using U(1)
    by (simp add: get_all_programs_as_tree_def populated_def initial_state_def Let_def)
qed

lemma tree_result_cases:
  assumes "get_all_programs_as_tree ps = (lg, Inr (Some (st, root_ref)))"
  shows "\<exists>r. root_candidates ps = [r]"
proof -
  from assms have ne: "ps \<noteq> []"
    by (auto simp: get_all_programs_as_tree_def)
  with assms have "\<not> 1 < root_candidates_count (sort_key depth ps)"
    by (auto simp: get_all_programs_as_tree_def Let_def split: if_splits)
  then have "length (root_candidates ps) \<le> 1" using count_candidates[OF ne] by simp
  moreover have "root_candidates ps \<noteq> []" by (rule root_candidates_nonempty[OF ne])
  ultimately show ?thesis
    by (cases "root_candidates ps") (auto simp: length_Suc_conv)
qed

lemma path_below_depth: "path_below q a \<Longrightarrow> path_depth a < path_depth q"
proof (induction rule: path_below.induct)
  case (parent q)
  then show ?case using parent_depth[of q] by simp
next
  case (above q a)
  then show ?case using parent_depth[of q] by simp
qed

lemma node_path_registered_parent:
  assumes inv: "tree_inv s"
    and dom: "set (map program_path (nodes_by_path s)) = dom (id_path_to_node s)"
    and q: "q \<in> set (map program_path (nodes_by_path s))"
    and deep: "path_depth (program_path (nodes_by_path s ! 0)) < path_depth q"
  shows "get_parent_id_path q \<in> set (map program_path (nodes_by_path s))"
proof -
  from q obtain j where j: "j < length (nodes_by_path s)" "program_path (nodes_by_path s ! j) = q"
    by (auto simp: in_set_conv_nth)
  with deep have "0 < j" by (cases "j = 0") auto
  from inv_parent[OF inv this j(1)] j(2) have "get_parent_id_path q \<in> dom (id_path_to_node s)"
    by auto
  with dom show ?thesis by simp
qed

lemma below_unregistered:
  assumes inv: "tree_inv s"
    and dom: "set (map program_path (nodes_by_path s)) = dom (id_path_to_node s)"
    and below: "path_below q a"
    and a: "a \<notin> set (map program_path (nodes_by_path s))"
    and deep: "path_depth (program_path (nodes_by_path s ! 0)) \<le> path_depth a"
  shows "q \<notin> set (map program_path (nodes_by_path s))"
  using below a deep
proof (induction rule: path_below.induct)
  case (parent q)
  have "path_depth (program_path (nodes_by_path s ! 0)) < path_depth q"
    using parent.prems(2) parent_depth[OF parent.hyps] by simp
  then show ?case using node_path_registered_parent[OF inv dom] parent.prems(1) by blast
next
  case (above q a)
  have lt: "path_depth a < path_depth (get_parent_id_path q)"
    by (rule path_below_depth[OF above.hyps(2)])
  have "path_depth (program_path (nodes_by_path s ! 0)) < path_depth q"
    using above.prems(2) lt parent_depth[OF above.hyps(1)] by simp
  moreover have "get_parent_id_path q \<notin> set (map program_path (nodes_by_path s))"
    by (rule above.IH[OF above.prems])
  ultimately show ?case using node_path_registered_parent[OF inv dom] by blast
qed

lemma final_state_facts:
  assumes "root_candidates ps = [r]"
  shows "tree_inv (bubble_up (populated ps))"
    and "set (map program_path (nodes_by_path (bubble_up (populated ps))))
           = dom (id_path_to_node (bubble_up (populated ps)))"
    and "program_path (nodes_by_path (bubble_up (populated ps)) ! 0) = p_program_path r"
    and "map node_data (nodes_by_path (bubble_up (populated ps))) =
           new_node r #
           map new_node (filter (\<lambda>p. get_parent_id_path (p_program_path p) \<in>
                                  set (map program_path (nodes_by_path (bubble_up (populated ps)))))
                            (tl (sort_key depth ps)))"
    and "logged (bubble_up (populated ps)) =
           map orphan_entry (filter (\<lambda>p. get_parent_id_path (p_program_path p) \<notin>
                                  set (map program_path (nodes_by_path (bubble_up (populated ps)))))
                               (tl (sort_key depth ps)))"
proof -
  let ?s1 = "populated ps" and ?s2 = "bubble_up (populated ps)"
  note P = populated_facts[OF assms]
  note F = bubble_up_frame[of ?s1]
  from F have M: "id_path_to_node ?s2 = id_path_to_node ?s1"
    and L: "logged ?s2 = logged ?s1"
    and len: "length (nodes_by_path ?s2) = length (nodes_by_path ?s1)"
    and D: "map node_data (nodes_by_path ?s2) = map node_data (nodes_by_path ?s1)"
    and pth: "\<And>j. program_path (nodes_by_path ?s2 ! j) = program_path (nodes_by_path ?s1 ! j)"
    by blast+
  show "tree_inv ?s2" using F P(1) by blast
  have paths: "map program_path (nodes_by_path ?s2) = map program_path (nodes_by_path ?s1)"
    by (rule nth_equalityI) (simp_all add: len pth)
  show dom2: "set (map program_path (nodes_by_path ?s2)) = dom (id_path_to_node ?s2)"
    unfolding paths M by (rule P(3))
  show "program_path (nodes_by_path ?s2 ! 0) = p_program_path r"
    unfolding pth by (rule P(4))
  have reg: "\<And>k. id_path_to_node ?s1 k \<noteq> None \<longleftrightarrow> k \<in> set (map program_path (nodes_by_path ?s2))"
    unfolding dom2 M by auto
  have reg': "\<And>k. id_path_to_node ?s1 k = None \<longleftrightarrow> k \<notin> set (map program_path (nodes_by_path ?s2))"
    unfolding dom2 M by auto
  show "map node_data (nodes_by_path ?s2) =
           new_node r #
           map new_node (filter (\<lambda>p. get_parent_id_path (p_program_path p) \<in>
                                  set (map program_path (nodes_by_path ?s2)))
                            (tl (sort_key depth ps)))"
    unfolding D P(5) reg ..
  show "logged ?s2 =
           map orphan_entry (filter (\<lambda>p. get_parent_id_path (p_program_path p) \<notin>
                                  set (map program_path (nodes_by_path ?s2)))
                               (tl (sort_key depth ps)))"
    unfolding L P(6) reg' ..
qed

lemma program_path_node_data: "program_path (node_data nd) = program_path nd"
  by (simp add: node_data_def)

lemma map_program_path_new_node: "map program_path (map new_node xs) = map p_program_path xs"
  by (simp add: new_node_sel)

lemma paths_of_node_data:
  "map program_path st = map program_path (map node_data st)"
  by (simp add: program_path_node_data)

text \<open>
  In a list sorted by depth, a parent path that is the path of a record is the path of
  an earlier record.
\<close>

lemma parent_among_earlier:
  assumes srt: "sorted (map depth (xs @ p # zs))"
    and dot: "CHR ''.'' \<in> set (p_program_path p)"
    and sub: "set ks \<subseteq> set (p # zs)"
  shows "get_parent_id_path (p_program_path p) \<notin> set (map p_program_path ks)"
proof
  assume "get_parent_id_path (p_program_path p) \<in> set (map p_program_path ks)"
  then obtain q where q: "q \<in> set ks" "p_program_path q = get_parent_id_path (p_program_path p)"
    by auto
  from srt have "sorted (map depth (p # zs))" by (simp add: sorted_append)
  with q(1) sub have "depth p \<le> depth q" by auto
  with q(2) parent_depth[OF dot] show False by (simp add: depth_def)
qed

section \<open>The aggregated flag\<close>

text \<open>
  In every tree that the function returns with a root whose path is not the empty string,
  the flag of a node says whether a proper descendant expects software effort.
\<close>

lemma flags_correct_nonempty_root:
  assumes res: "get_all_programs_as_tree ps = (lg, Inr (Some (st, root_ref)))"
    and root: "program_path (st ! root_ref) \<noteq> []"
    and i: "i \<in> tree_nodes st root_ref"
  shows "has_descendant_expecting_software_effort (st ! i) \<longleftrightarrow>
         (\<exists>j. (i, j) \<in> (child_rel st)\<^sup>+ \<and> expecting_software_efforts (st ! j))"
proof -
  from tree_result_cases[OF res] obtain r where r: "root_candidates ps = [r]" ..
  let ?s1 = "populated ps" and ?s2 = "bubble_up (populated ps)"
  from res tree_result_unique_root[OF r]
  have st: "st = nodes_by_path ?s2" and rr: "root_ref = 0" by simp_all
  note P = populated_facts[OF r]
  note F = bubble_up_frame[of ?s1]
  from F have len: "length (nodes_by_path ?s2) = length (nodes_by_path ?s1)"
    and pth: "\<And>j. program_path (nodes_by_path ?s2 ! j) = program_path (nodes_by_path ?s1 ! j)"
    by blast+
  have inv2: "tree_inv ?s2" by (rule final_state_facts(1)[OF r])
  have root1: "program_path (nodes_by_path ?s1 ! 0) \<noteq> []"
    using root by (simp add: st rr pth)
  have gt: "\<And>i j. i < length st \<Longrightarrow> j \<in> set (children (st ! i)) \<Longrightarrow> i < j \<and> j < length st"
    unfolding st by (rule inv_child_gt[OF inv2])
  have par: "\<And>j. 0 < j \<Longrightarrow> j < length st \<Longrightarrow> \<exists>i<j. j \<in> set (children (st ! i))"
  proof -
    fix j assume j: "0 < j" "j < length st"
    from inv_parent[OF inv2 j(1)] j(2) obtain i where
      i: "i < j" "id_path_to_node ?s2 (get_parent_id_path (program_path (nodes_by_path ?s2 ! j))) = Some i"
      unfolding st by blast
    from i(1) j(2) have "i < length (nodes_by_path ?s2)" unfolding st by simp
    from inv_children[OF inv2 this, of j] i j show "\<exists>i<j. j \<in> set (children (st ! i))"
      unfolding st by blast
  qed
  have all: "tree_nodes st 0 = {0 ..< length st}"
    by (rule tree_nodes_all[OF _ gt par]) (use inv_nonempty[OF inv2] in \<open>simp_all add: st\<close>)
  with i rr have il: "i < length st" by simp
  have step: "\<And>i. i < length st \<Longrightarrow>
      has_descendant_expecting_software_effort (st ! i) \<longleftrightarrow>
      (\<exists>j\<in>set (children (st ! i)).
         expecting_software_efforts (st ! j) \<or> has_descendant_expecting_software_effort (st ! j))"
    unfolding st len by (rule bubble_up_flags[OF P(1) root1 P(2)])
  show ?thesis by (rule flags_closure[OF step gt il])
qed

section \<open>The tree of a list with one root candidate\<close>

lemma final_tree_shape:
  assumes r: "root_candidates ps = [r]"
  shows "\<forall>j. 0 < j \<and> j < length (nodes_by_path (bubble_up (populated ps))) \<longrightarrow>
           (\<exists>i<j. j \<in> set (children (nodes_by_path (bubble_up (populated ps)) ! i)) \<and>
                  program_path (nodes_by_path (bubble_up (populated ps)) ! i) =
                    get_parent_id_path (program_path (nodes_by_path (bubble_up (populated ps)) ! j)))"
    and "tree_nodes (nodes_by_path (bubble_up (populated ps))) 0
           = {0 ..< length (nodes_by_path (bubble_up (populated ps)))}"
proof -
  let ?s2 = "bubble_up (populated ps)"
  let ?st = "nodes_by_path ?s2"
  have inv2: "tree_inv ?s2" by (rule final_state_facts(1)[OF r])
  have gt: "\<And>i j. i < length ?st \<Longrightarrow> j \<in> set (children (?st ! i)) \<Longrightarrow> i < j \<and> j < length ?st"
    by (rule inv_child_gt[OF inv2])
  show par: "\<forall>j. 0 < j \<and> j < length ?st \<longrightarrow>
           (\<exists>i<j. j \<in> set (children (?st ! i)) \<and>
                  program_path (?st ! i) = get_parent_id_path (program_path (?st ! j)))"
  proof (intro allI impI)
    fix j assume j: "0 < j \<and> j < length ?st"
    from inv_parent[OF inv2] j obtain i where
      i: "i < j" "id_path_to_node ?s2 (get_parent_id_path (program_path (?st ! j))) = Some i"
      by blast
    from i(1) j have il: "i < length ?st" by simp
    from inv_children[OF inv2 il, of j] i j have "j \<in> set (children (?st ! i))" by blast
    moreover from inv_registered[OF inv2 i(2)]
    have "program_path (?st ! i) = get_parent_id_path (program_path (?st ! j))" by simp
    ultimately show "\<exists>i<j. j \<in> set (children (?st ! i)) \<and>
                  program_path (?st ! i) = get_parent_id_path (program_path (?st ! j))"
      using i(1) by blast
  qed
  have par': "\<And>j. 0 < j \<Longrightarrow> j < length ?st \<Longrightarrow> \<exists>i<j. j \<in> set (children (?st ! i))"
    using par by blast
  show "tree_nodes ?st 0 = {0 ..< length ?st}"
    by (rule tree_nodes_all[OF inv_nonempty[OF inv2] gt par'])
qed

lemma orphans_excluded:
  assumes r: "root_candidates ps = [r]"
    and p: "p \<in> set (tl (sort_key depth ps))"
    and orphan: "get_parent_id_path (p_program_path p) \<notin>
                   set (map program_path (nodes_by_path (bubble_up (populated ps))))"
    and nd: "nd \<in> set (nodes_by_path (bubble_up (populated ps)))"
  shows "program_path nd \<noteq> p_program_path p \<and> \<not> path_below (program_path nd) (p_program_path p)"
proof -
  let ?s2 = "bubble_up (populated ps)"
  let ?paths = "set (map program_path (nodes_by_path ?s2))"
  note S = final_state_facts[OF r]
  note U = unique_root_sorted[OF r]
  have deep: "path_depth (program_path (nodes_by_path ?s2 ! 0)) < path_depth (p_program_path p)"
    using U(3) p by (simp add: S(3) depth_def)
  have notin: "p_program_path p \<notin> ?paths"
    using node_path_registered_parent[OF S(1) S(2) _ deep] orphan by blast
  have "\<And>q. path_below q (p_program_path p) \<Longrightarrow> q \<notin> ?paths"
    using below_unregistered[OF S(1) S(2) _ notin] deep by simp
  with notin nd show ?thesis by (auto simp: image_iff)
qed

lemma kept_iff_earlier:
  assumes r: "root_candidates ps = [r]"
    and split: "tl (sort_key depth ps) = xs @ p # zs"
  shows "get_parent_id_path (p_program_path p) \<in>
           set (map program_path (nodes_by_path (bubble_up (populated ps))))
         \<longleftrightarrow>
         get_parent_id_path (p_program_path p) \<in>
           set (map p_program_path
             (r # filter (\<lambda>q. get_parent_id_path (p_program_path q) \<in>
                             set (map program_path (nodes_by_path (bubble_up (populated ps))))) xs))"
proof -
  define st where "st = nodes_by_path (bubble_up (populated ps))"
  define K where "K = (\<lambda>q::program_dict. get_parent_id_path (p_program_path q) \<in> set (map program_path st))"
  note S = final_state_facts[OF r]
  note U = unique_root_sorted[OF r]
  have srt: "sorted (map depth (xs @ p # zs))" using U(4) split by simp
  have "p \<in> set (tl (sort_key depth ps))" using split by simp
  with U(3) have "path_depth (p_program_path r) < path_depth (p_program_path p)"
    by (simp add: depth_def)
  then have dot: "CHR ''.'' \<in> set (p_program_path p)" by (rule deeper_has_dot)
  have data: "map node_data st = new_node r # map new_node (filter K (xs @ p # zs))"
    using S(4) by (simp only: st_def K_def split)
  have "map program_path st = map program_path (map node_data st)"
    by (rule paths_of_node_data)
  also have "\<dots> = p_program_path r # map p_program_path (filter K (xs @ p # zs))"
    by (simp only: data list.map map_program_path_new_node new_node_sel)
  also have "\<dots> = map p_program_path (r # filter K xs) @ map p_program_path (filter K (p # zs))"
    by (simp only: filter_append map_append list.map append_Cons)
  finally have paths: "set (map program_path st) =
      set (map p_program_path (r # filter K xs)) \<union> set (map p_program_path (filter K (p # zs)))"
    by (simp only: set_append)
  have "get_parent_id_path (p_program_path p) \<notin> set (map p_program_path (filter K (p # zs)))"
    by (rule parent_among_earlier[OF srt dot]) (rule filter_is_subset)
  then have "get_parent_id_path (p_program_path p) \<in> set (map program_path st) \<longleftrightarrow>
      get_parent_id_path (p_program_path p) \<in> set (map p_program_path (r # filter K xs))"
    unfolding paths by blast
  then show ?thesis by (simp only: st_def K_def)
qed

lemma unique_root_tree_facts:
  assumes "root_candidates ps = [r]"
  shows "\<exists>lg st. get_all_programs_as_tree ps = (lg, Inr (Some (st, 0)))
     \<and> node_data (st ! 0) = new_node r
     \<and> map node_data st =
         new_node r #
         map new_node (filter (\<lambda>p. get_parent_id_path (p_program_path p) \<in> set (map program_path st))
                          (tl (sort_key depth ps)))
     \<and> lg = map orphan_entry
               (filter (\<lambda>p. get_parent_id_path (p_program_path p) \<notin> set (map program_path st))
                  (tl (sort_key depth ps)))
     \<and> (\<forall>xs p zs. tl (sort_key depth ps) = xs @ p # zs \<longrightarrow>
          (get_parent_id_path (p_program_path p) \<in> set (map program_path st) \<longleftrightarrow>
           get_parent_id_path (p_program_path p) \<in>
             set (map p_program_path
               (r # filter (\<lambda>q. get_parent_id_path (p_program_path q) \<in> set (map program_path st)) xs))))
     \<and> (\<forall>j. 0 < j \<and> j < length st \<longrightarrow>
          (\<exists>i<j. j \<in> set (children (st ! i)) \<and>
                 program_path (st ! i) = get_parent_id_path (program_path (st ! j))))
     \<and> (\<forall>p\<in>set (tl (sort_key depth ps)).
          get_parent_id_path (p_program_path p) \<notin> set (map program_path st) \<longrightarrow>
          (\<forall>nd\<in>set st. program_path nd \<noteq> p_program_path p \<and>
                        \<not> path_below (program_path nd) (p_program_path p)))
     \<and> tree_nodes st 0 = {0 ..< length st}
     \<and> card (tree_nodes st 0) = length ps - length lg"
proof -
  let ?s2 = "bubble_up (populated ps)"
  let ?st = "nodes_by_path ?s2" and ?lg = "logged ?s2"
  let ?rest = "tl (sort_key depth ps)"
  let ?K = "\<lambda>p. get_parent_id_path (p_program_path p) \<in> set (map program_path ?st)"
  note S = final_state_facts[OF assms]
  note U = unique_root_sorted[OF assms]
  note T = final_tree_shape[OF assms]
  have 1: "get_all_programs_as_tree ps = (?lg, Inr (Some (?st, 0)))"
    by (rule tree_result_unique_root[OF assms])
  have ne: "0 < length ?st" by (rule inv_nonempty[OF S(1)])
  have "node_data (?st ! 0) = map node_data ?st ! 0" using ne by simp
  also have "\<dots> = new_node r" unfolding S(4) by simp
  finally have 2: "node_data (?st ! 0) = new_node r" .
  have 5: "\<forall>xs p zs. ?rest = xs @ p # zs \<longrightarrow>
          (?K p \<longleftrightarrow> get_parent_id_path (p_program_path p) \<in>
             set (map p_program_path (r # filter ?K xs)))"
    using kept_iff_earlier[OF assms] by blast
  have 7: "\<forall>p\<in>set ?rest. \<not> ?K p \<longrightarrow>
          (\<forall>nd\<in>set ?st. program_path nd \<noteq> p_program_path p \<and>
                        \<not> path_below (program_path nd) (p_program_path p))"
    using orphans_excluded[OF assms] by blast
  have "length ?st = length (map node_data ?st)" by simp
  also have "\<dots> = Suc (length (filter ?K ?rest))" unfolding S(4) by simp
  finally have ls: "length ?st = Suc (length (filter ?K ?rest))" .
  have ll: "length ?lg = length (filter (\<lambda>p. \<not> ?K p) ?rest)" unfolding S(5) by simp
  have "length ps = length (sort_key depth ps)" by simp
  also have "\<dots> = Suc (length ?rest)" by (subst U(2)) simp
  also have "length ?rest = length (filter ?K ?rest) + length (filter (\<lambda>p. \<not> ?K p) ?rest)"
    by (rule sum_length_filter_compl[symmetric])
  finally have "length ?st = length ps - length ?lg" using ls ll by simp
  then have 9: "card (tree_nodes ?st 0) = length ps - length ?lg"
    unfolding T(2) by simp
  show ?thesis
    by (intro exI[of _ ?lg] exI[of _ ?st] conjI 1 2 S(4) S(5) 5 T(1) 7 T(2) 9)
qed


subsection \<open>The parent path against the words of the specification\<close>

lemma split_on_no: "c \<notin> set s \<Longrightarrow> split_on c s = [s]"
  by (induction s) auto

lemma split_on_append: "split_on c (q @ c # s) = split_on c q @ split_on c s"
proof (induction q)
  case Nil
  then show ?case by simp
next
  case (Cons x q)
  have ne: "split_on c q \<noteq> []" by (rule split_on_nonempty)
  show ?case
  proof (cases "x = c")
    case True
    then show ?thesis using Cons.IH by simp
  next
    case False
    then show ?thesis using Cons.IH ne by (simp add: hd_append tl_append split: list.splits)
  qed
qed

lemma join_split: "join_on c (split_on c q) = q"
proof (induction q)
  case Nil
  then show ?case by simp
next
  case (Cons x q)
  obtain h t where sp: "split_on c q = h # t"
    using split_on_nonempty[of c q] by (cases "split_on c q") auto
  show ?case
  proof (cases "x = c")
    case True
    then show ?thesis using Cons.IH by (simp add: sp)
  next
    case False
    then show ?thesis using Cons.IH by (cases t) (simp_all add: sp)
  qed
qed

lemma parent_is_without_final_segment:
  "get_parent_id_path path = without_final_segment path"
proof (cases "CHR ''.'' \<in> set path")
  case False
  then show ?thesis
    by (simp add: parent_no_dot without_final_segment_def split_on_no)
next
  case True
  from parent_decomp[OF True] obtain s where
    p: "path = get_parent_id_path path @ CHR ''.'' # s" and s: "CHR ''.'' \<notin> set s" by blast
  have "without_final_segment path
        = join_on CHR ''.'' (butlast (split_on CHR ''.'' (get_parent_id_path path @ CHR ''.'' # s)))"
    unfolding without_final_segment_def by (subst p) (rule refl)
  also have "\<dots> = join_on CHR ''.'' (split_on CHR ''.'' (get_parent_id_path path))"
    by (simp add: split_on_append split_on_no[OF s])
  also have "\<dots> = get_parent_id_path path" by (rule join_split)
  finally show ?thesis by (rule sym)
qed

lemma parent_append:
  assumes "CHR ''.'' \<notin> set s"
  shows "get_parent_id_path (q @ CHR ''.'' # s) = q"
proof -
  have "dropWhile (\<lambda>c. c \<noteq> CHR ''.'') (rev s @ CHR ''.'' # rev q)
        = dropWhile (\<lambda>c. c \<noteq> CHR ''.'') (CHR ''.'' # rev q)"
    by (rule dropWhile_append2) (use assms in auto)
  then show ?thesis by (simp add: get_parent_id_path_def)
qed

lemma extension_below: "path_below (p @ CHR ''.'' # s) p"
proof (induction "length s" arbitrary: s rule: less_induct)
  case less
  show ?case
  proof (cases "CHR ''.'' \<in> set s")
    case False
    have "path_below (p @ CHR ''.'' # s) (get_parent_id_path (p @ CHR ''.'' # s))"
      by (rule path_below.parent) simp
    then show ?thesis by (simp only: parent_append[OF False])
  next
    case True
    from parent_decomp[OF True] obtain s2 where
      d: "s = get_parent_id_path s @ CHR ''.'' # s2" and s2: "CHR ''.'' \<notin> set s2" by blast
    let ?s1 = "get_parent_id_path s"
    have "length ?s1 < length s" by (subst (2) d) simp
    then have ih: "path_below (p @ CHR ''.'' # ?s1) p" by (rule less)
    have q: "p @ CHR ''.'' # s = (p @ CHR ''.'' # ?s1) @ CHR ''.'' # s2"
      by (subst d) simp
    have g: "get_parent_id_path (p @ CHR ''.'' # s) = p @ CHR ''.'' # ?s1"
      by (subst q) (rule parent_append[OF s2])
    show ?thesis
      by (rule path_below.above) (simp, simp only: g ih)
  qed
qed

text \<open>
  C3: given a list of current program records with one record at the minimum depth, the
  function returns a tree and raises nothing. The root node carries the data of that
  record. Of the other records, taken in the order of the sort by depth, exactly those
  whose parent path, the path without its final segment, is the path of a node of the
  tree have a node, in that order; such a parent path is the path of the root or of an
  earlier record that has a node, and every node but the root is in the children list of
  a node created before it whose path is its parent path, so no second root arises.
  Every other record is logged as an orphan, with its name, its path and its parent
  path, and has no node, and no node has a path equal to its path or made of its path,
  a dot and more. Every node of the store is reachable from the root, so the number of
  nodes of the tree is the number of records minus the number of orphans logged. The
  depth of a record is the number of dots of its path plus one, and the node made from a
  record carries its name, its identifier, its path and its flag, and has no children.
\<close>

theorem tree_of_unique_root:
  assumes "root_candidates ps = [r]"
  shows "\<exists>lg st. get_all_programs_as_tree ps = (lg, Inr (Some (st, 0)))
     \<and> node_data (st ! 0) = new_node r
     \<and> map node_data st =
         new_node r #
         map new_node (filter (\<lambda>p. without_final_segment (p_program_path p) \<in> set (map program_path st))
                          (tl (sort_key depth ps)))
     \<and> lg = map (\<lambda>p. Orphan_found (p_name p) (p_program_path p)
                       (without_final_segment (p_program_path p)))
               (filter (\<lambda>p. without_final_segment (p_program_path p) \<notin> set (map program_path st))
                  (tl (sort_key depth ps)))
     \<and> (\<forall>xs p zs. tl (sort_key depth ps) = xs @ p # zs \<longrightarrow>
          (without_final_segment (p_program_path p) \<in> set (map program_path st) \<longleftrightarrow>
           without_final_segment (p_program_path p) \<in>
             set (map p_program_path
               (r # filter (\<lambda>q. without_final_segment (p_program_path q) \<in> set (map program_path st)) xs))))
     \<and> (\<forall>j. 0 < j \<and> j < length st \<longrightarrow>
          (\<exists>i<j. j \<in> set (children (st ! i)) \<and>
                 program_path (st ! i) = without_final_segment (program_path (st ! j))))
     \<and> (\<forall>p\<in>set (tl (sort_key depth ps)).
          without_final_segment (p_program_path p) \<notin> set (map program_path st) \<longrightarrow>
          (\<forall>nd\<in>set st. program_path nd \<noteq> p_program_path p \<and>
                        (\<forall>s. program_path nd \<noteq> p_program_path p @ CHR ''.'' # s)))
     \<and> tree_nodes st 0 = {0 ..< length st}
     \<and> card (tree_nodes st 0) = length ps - length lg
     \<and> (\<forall>p. depth p = Suc (length (filter (\<lambda>c. c = CHR ''.'') (p_program_path p))))
     \<and> (\<forall>p. program_name (new_node p) = p_name p
            \<and> program_id (new_node p) = p_program_id p
            \<and> program_path (new_node p) = p_program_path p
            \<and> expecting_software_efforts (new_node p) = p_expect_software_effort p
            \<and> children (new_node p) = [])"
proof -
  have eq: "get_parent_id_path = without_final_segment"
    by (rule ext) (rule parent_is_without_final_segment)
  from unique_root_tree_facts[OF assms] obtain lg st where
    1: "get_all_programs_as_tree ps = (lg, Inr (Some (st, 0)))"
    and 2: "node_data (st ! 0) = new_node r"
    and 3: "map node_data st =
         new_node r #
         map new_node (filter (\<lambda>p. get_parent_id_path (p_program_path p) \<in> set (map program_path st))
                          (tl (sort_key depth ps)))"
    and 4: "lg = map orphan_entry
               (filter (\<lambda>p. get_parent_id_path (p_program_path p) \<notin> set (map program_path st))
                  (tl (sort_key depth ps)))"
    and 5: "\<forall>xs p zs. tl (sort_key depth ps) = xs @ p # zs \<longrightarrow>
          (get_parent_id_path (p_program_path p) \<in> set (map program_path st) \<longleftrightarrow>
           get_parent_id_path (p_program_path p) \<in>
             set (map p_program_path
               (r # filter (\<lambda>q. get_parent_id_path (p_program_path q) \<in> set (map program_path st)) xs)))"
    and 6: "\<forall>j. 0 < j \<and> j < length st \<longrightarrow>
          (\<exists>i<j. j \<in> set (children (st ! i)) \<and>
                 program_path (st ! i) = get_parent_id_path (program_path (st ! j)))"
    and 7: "\<forall>p\<in>set (tl (sort_key depth ps)).
          get_parent_id_path (p_program_path p) \<notin> set (map program_path st) \<longrightarrow>
          (\<forall>nd\<in>set st. program_path nd \<noteq> p_program_path p \<and>
                        \<not> path_below (program_path nd) (p_program_path p))"
    and 8: "tree_nodes st 0 = {0 ..< length st}"
    and 9: "card (tree_nodes st 0) = length ps - length lg"
    by (elim exE conjE) (rule that)
  have oe: "orphan_entry = (\<lambda>p. Orphan_found (p_name p) (p_program_path p)
                       (without_final_segment (p_program_path p)))"
    by (rule ext) (simp add: orphan_entry_def eq)
  note k3 = 3[unfolded eq] and k4 = 4[unfolded eq oe] and k5 = 5[unfolded eq]
    and k6 = 6[unfolded eq]
  have k7: "\<forall>p\<in>set (tl (sort_key depth ps)).
          without_final_segment (p_program_path p) \<notin> set (map program_path st) \<longrightarrow>
          (\<forall>nd\<in>set st. program_path nd \<noteq> p_program_path p \<and>
                        (\<forall>s. program_path nd \<noteq> p_program_path p @ CHR ''.'' # s))"
  proof (intro ballI impI allI conjI)
    fix p nd s
    assume p: "p \<in> set (tl (sort_key depth ps))"
      and o: "without_final_segment (p_program_path p) \<notin> set (map program_path st)"
      and nd: "nd \<in> set st"
    from 7[unfolded eq, rule_format, OF p o nd]
    have a: "program_path nd \<noteq> p_program_path p"
      and b: "\<not> path_below (program_path nd) (p_program_path p)" by simp_all
    show "program_path nd \<noteq> p_program_path p" by (rule a)
    show "program_path nd \<noteq> p_program_path p @ CHR ''.'' # s"
    proof
      assume "program_path nd = p_program_path p @ CHR ''.'' # s"
      with extension_below[of "p_program_path p" s] b show False by simp
    qed
  qed
  have k10: "\<forall>p. depth p = Suc (length (filter (\<lambda>c. c = CHR ''.'') (p_program_path p)))"
    by (simp add: depth_def path_depth_count)
  have k11: "\<forall>p. program_name (new_node p) = p_name p
            \<and> program_id (new_node p) = p_program_id p
            \<and> program_path (new_node p) = p_program_path p
            \<and> expecting_software_efforts (new_node p) = p_expect_software_effort p
            \<and> children (new_node p) = []"
    by (simp add: new_node_def map_to_dto_def)
  show ?thesis
    by (intro exI[of _ lg] exI[of _ st] conjI 1 2 k3 k4 k5 k6 k7 8 9 k10 k11)
qed

lemma depth_program_at: "depth (program_at path nm e) = path_depth path"
  by (simp add: depth_def program_at_def)

text \<open>
  The example of the specification, with an orphan added: the root has a descendant that
  expects software effort; the node \<open>1.1\<close> expects it itself, and none of its
  descendants does.
\<close>

lemma example_tree:
  "get_all_programs_as_tree
          [program_at ''1.1.1'' ''C'' False, program_at ''1'' ''A'' False,
           program_at ''1.5.1'' ''D'' True, program_at ''1.1'' ''B'' True]
   = ([Orphan_found ''D'' ''1.5.1'' ''1.5''],
      Inr (Some ([(new_node (program_at ''1'' ''A'' False))
                    \<lparr> children := [1], has_descendant_expecting_software_effort := True \<rparr>,
                  (new_node (program_at ''1.1'' ''B'' True)) \<lparr> children := [2] \<rparr>,
                  new_node (program_at ''1.1.1'' ''C'' False)], 0)))"
  by code_simp


theorem tree_of_unique_root_witness:
  "root_candidates
     [program_at ''1.1.1'' ''C'' False, program_at ''1'' ''A'' False,
      program_at ''1.5.1'' ''D'' True, program_at ''1.1'' ''B'' True]
   = [program_at ''1'' ''A'' False]
   \<and> (\<exists>lg st.
        get_all_programs_as_tree
          [program_at ''1.1.1'' ''C'' False, program_at ''1'' ''A'' False,
           program_at ''1.5.1'' ''D'' True, program_at ''1.1'' ''B'' True]
        = (lg, Inr (Some (st, 0)))
        \<and> map program_path st = [''1'', ''1.1'', ''1.1.1'']
        \<and> map program_name st = [''A'', ''B'', ''C'']
        \<and> map children st = [[1], [2], []]
        \<and> lg = [Orphan_found ''D'' ''1.5.1'' ''1.5'']
        \<and> card (tree_nodes st 0) = 3)"
proof -
  let ?ps = "[program_at ''1.1.1'' ''C'' False, program_at ''1'' ''A'' False,
      program_at ''1.5.1'' ''D'' True, program_at ''1.1'' ''B'' True]"
  have h: "root_candidates ?ps = [program_at ''1'' ''A'' False]"
    by (simp add: root_candidates_def min_depth_def depth_program_at path_depth_def)
  from tree_of_unique_root[OF h] obtain lg st where
    t: "get_all_programs_as_tree ?ps = (lg, Inr (Some (st, 0)))"
    and c: "card (tree_nodes st 0) = length ?ps - length lg"
    by (elim exE conjE) (rule that)
  from t have lg: "lg = [Orphan_found ''D'' ''1.5.1'' ''1.5'']"
    and st: "st = [(new_node (program_at ''1'' ''A'' False))
                    \<lparr> children := [1], has_descendant_expecting_software_effort := True \<rparr>,
                  (new_node (program_at ''1.1'' ''B'' True)) \<lparr> children := [2] \<rparr>,
                  new_node (program_at ''1.1.1'' ''C'' False)]"
    unfolding example_tree by simp_all
  have 1: "map program_path st = [''1'', ''1.1'', ''1.1.1'']"
    and 2: "map program_name st = [''A'', ''B'', ''C'']"
    and 3: "map children st = [[1], [2], []]"
    unfolding st by (simp_all add: new_node_sel program_at_def)
  have 4: "card (tree_nodes st 0) = 3" using c unfolding lg by simp
  have "\<exists>lg st. get_all_programs_as_tree ?ps = (lg, Inr (Some (st, 0)))
        \<and> map program_path st = [''1'', ''1.1'', ''1.1.1'']
        \<and> map program_name st = [''A'', ''B'', ''C'']
        \<and> map children st = [[1], [2], []]
        \<and> lg = [Orphan_found ''D'' ''1.5.1'' ''1.5'']
        \<and> card (tree_nodes st 0) = 3"
    by (intro exI[of _ lg] exI[of _ st] conjI t 1 2 3 lg 4)
  with h show ?thesis by (rule conjI)
qed
section \<open>The aggregated flag on examples\<close>

lemma empty_root_path_tree:
  "get_all_programs_as_tree
           [program_at [] ''root'' False, program_at ''.1'' ''child'' True]
         = ([], Inr (Some ([(new_node (program_at [] ''root'' False))\<lparr> children := [1] \<rparr>,
                new_node (program_at ''.1'' ''child'' True)], 0)))"
  by code_simp

text \<open>
  C2, where the root's path is the empty string: the record \<open>.1\<close> has the parent path
  \<open>\<close> (empty), which is registered, so the loop that populates the tree makes it a
  child of the root. The aggregation loop tests the parent path for truth before it looks
  the parent up, so the flag of the child is not passed on: the root has a child that
  expects software effort, and its flag stays false. For every tree whose root has a path
  other than the empty string the flag is right, as \<open>flags_correct_nonempty_root\<close> shows.
\<close>

theorem empty_root_path_flag_missed:
  "\<exists>st. get_all_programs_as_tree
           [program_at [] ''root'' False, program_at ''.1'' ''child'' True]
         = ([], Inr (Some (st, 0)))
       \<and> 1 \<in> set (children (st ! 0))
       \<and> expecting_software_efforts (st ! 1)
       \<and> \<not> has_descendant_expecting_software_effort (st ! 0)"
  unfolding empty_root_path_tree
  by (simp add: new_node_sel program_at_def)

section \<open>The latest active versions\<close>

lemma upsert_max_keys:
  "map fst (upsert_max k d gs) = (if k \<in> set (map fst gs) then map fst gs else map fst gs @ [k])"
  by (induction gs) (force simp: image_iff)+

lemma upsert_max_lookup:
  "map_of (upsert_max k d gs) k' =
     (if k' = k then (case map_of gs k of None \<Rightarrow> Some d | Some d' \<Rightarrow> Some (max d' d))
      else map_of gs k')"
  by (induction gs) (auto split: option.splits)

lemma fold_upsert_keys:
  "distinct (map fst gs) \<Longrightarrow>
   distinct (map fst (fold (\<lambda>row. upsert_max (info_program_id row) (info_date row)) rows gs))
   \<and> set (map fst (fold (\<lambda>row. upsert_max (info_program_id row) (info_date row)) rows gs))
        = set (map fst gs) \<union> set (map info_program_id rows)"
proof (induction rows arbitrary: gs)
  case Nil
  then show ?case by simp
next
  case (Cons r rows)
  let ?gs' = "upsert_max (info_program_id r) (info_date r) gs"
  have d: "distinct (map fst ?gs')" using Cons.prems by (simp add: upsert_max_keys)
  have keys: "set (map fst ?gs') = insert (info_program_id r) (set (map fst gs))"
    by (simp add: upsert_max_keys) blast
  from Cons.IH[OF d] keys show ?case by auto
qed

lemma fold_upsert_lookup:
  "map_of (fold (\<lambda>row. upsert_max (info_program_id row) (info_date row)) rows gs) k =
     (case map_of gs k of
        None \<Rightarrow> (case map info_date (filter (\<lambda>r. info_program_id r = k) rows) of
                   [] \<Rightarrow> None
                 | d # ds \<Rightarrow> Some (fold max ds d))
      | Some d0 \<Rightarrow> Some (fold max (map info_date (filter (\<lambda>r. info_program_id r = k) rows)) d0))"
proof (induction rows arbitrary: gs)
  case Nil
  then show ?case by (simp split: option.splits)
next
  case (Cons r rows)
  show ?case
    by (simp add: Cons.IH upsert_max_lookup max.commute split: option.splits)
qed

lemma group_lookup:
  "map_of (group_by_program_id_max rows) k =
     (if k \<in> set (map info_program_id rows)
      then Some (Max (set (map info_date (filter (\<lambda>r. info_program_id r = k) rows))))
      else None)"
proof -
  let ?ds = "map info_date (filter (\<lambda>r. info_program_id r = k) rows)"
  have ne: "?ds \<noteq> [] \<longleftrightarrow> k \<in> set (map info_program_id rows)"
    by (auto simp: filter_empty_conv)
  have "map_of (group_by_program_id_max rows) k =
      (case ?ds of [] \<Rightarrow> None | d # ds \<Rightarrow> Some (fold max ds d))"
    unfolding group_by_program_id_max_def by (simp add: fold_upsert_lookup)
  also have "\<dots> = (if ?ds = [] then None else Some (Max (set ?ds)))"
  proof (cases ?ds)
    case Nil
    then show ?thesis by simp
  next
    case (Cons d ds)
    have "fold max ds d = Max (set (d # ds))" by (rule Max.set_eq_fold[symmetric])
    with Cons show ?thesis by (simp only: list.case list.distinct if_False)
  qed
  finally show ?thesis using ne by (cases "?ds = []") auto
qed

text \<open>
  The copy of \<^verbatim>\<open>_get_latest_programs\<close> in \<^verbatim>\<open>src/backend/service_temp.py\<close>: one entry per
  program id that has an active row, with the greatest date of its active rows; nothing
  for a table without active rows.
\<close>

lemma latest_programs_correct:
  "distinct (map fst (get_latest_programs table))
   \<and> set (map fst (get_latest_programs table))
       = info_program_id ` {row \<in> set table. info_program_active row}
   \<and> (\<forall>pid d. (pid, d) \<in> set (get_latest_programs table) \<longrightarrow>
         d = Max (info_date ` {row \<in> set table. info_program_active row \<and> info_program_id row = pid}))
   \<and> (filter info_program_active table = [] \<longrightarrow> get_latest_programs table = [])"
proof (intro conjI allI impI)
  let ?act = "filter info_program_active table"
  have K: "distinct (map fst (group_by_program_id_max ?act))
     \<and> set (map fst (group_by_program_id_max ?act)) = set (map info_program_id ?act)"
    using fold_upsert_keys[of "[]" ?act] by (simp add: group_by_program_id_max_def)
  show d: "distinct (map fst (get_latest_programs table))"
    using K by (simp add: get_latest_programs_def)
  show "set (map fst (get_latest_programs table))
       = info_program_id ` {row \<in> set table. info_program_active row}"
    using K by (simp add: get_latest_programs_def)
  show "filter info_program_active table = [] \<Longrightarrow> get_latest_programs table = []"
    by (simp add: get_latest_programs_def group_by_program_id_max_def)
  fix pid d assume "(pid, d) \<in> set (get_latest_programs table)"
  with d have "map_of (get_latest_programs table) pid = Some d" by simp
  then have "Some d = (if pid \<in> set (map info_program_id ?act)
      then Some (Max (set (map info_date (filter (\<lambda>r. info_program_id r = pid) ?act))))
      else None)"
    by (simp add: get_latest_programs_def group_lookup)
  then have "d = Max (set (map info_date (filter (\<lambda>r. info_program_id r = pid) ?act)))"
    by (simp split: if_splits)
  moreover have "set (map info_date (filter (\<lambda>r. info_program_id r = pid) ?act))
      = info_date ` {row \<in> set table. info_program_active row \<and> info_program_id row = pid}"
    by auto
  ultimately show "d = Max (info_date ` {row \<in> set table. info_program_active row \<and> info_program_id row = pid})"
    by simp
qed

text \<open>
  C4, on the earlier copy of \<^verbatim>\<open>_get_latest_programs\<close> in \<^verbatim>\<open>src/service_temp.py\<close>: for
  two active rows of program 7, dated 10 and 20, it returns two entries for program 7,
  one of them with the date 10, which is not the greatest. The copy in
  \<^verbatim>\<open>src/backend/service_temp.py\<close> returns one entry per program with the greatest date
  on every table, as \<open>latest_programs_correct\<close> shows.
\<close>

theorem legacy_latest_programs_per_row:
  "get_latest_programs_legacy
     [\<lparr>info_id = 1, info_program_id = 7, info_program_active = True, info_date = 10\<rparr>,
      \<lparr>info_id = 2, info_program_id = 7, info_program_active = True, info_date = 20\<rparr>]
   = [(7, 10), (7, 20)]"
  by (simp add: get_latest_programs_legacy_def)

lemma backend_latest_programs_example:
  "get_latest_programs
     [\<lparr>info_id = 1, info_program_id = 7, info_program_active = True, info_date = 10\<rparr>,
      \<lparr>info_id = 2, info_program_id = 7, info_program_active = True, info_date = 20\<rparr>]
   = [(7, 20)]"
  by (simp add: get_latest_programs_def group_by_program_id_max_def)

text \<open>
  C9: \<^verbatim>\<open>get_program_by_id\<close> and \<^verbatim>\<open>get_program_by_uuid\<close> pass the result of
  \<^verbatim>\<open>first()\<close> to the conversion without testing it. Whatever the serializer and
  \<^verbatim>\<open>model_validate\<close> do, the two functions never return \<^verbatim>\<open>None\<close>: for an identifier
  without a current active record they raise, or return an instance built from the
  serializer's data for no row. The docstrings say ``None if no match was found'', and
  \<^verbatim>\<open>get_efforts_for_program\<close> returns \<^verbatim>\<open>None\<close> for such an identifier.
\<close>

theorem program_lookup_never_absent:
  "get_program_by_id serializer_data model_validate table ident \<noteq> Inr None
   \<and> get_program_by_uuid serializer_data model_validate table storage_id \<noteq> Inr None
   \<and> get_program_by_id serializer_data model_validate [] ident
       = map_sum id Some (convert_program_catalog_info_to_dto serializer_data model_validate None)
   \<and> get_efforts_for_program efforts_of [] ident = None"
  by (auto simp: get_program_by_id_def get_program_by_uuid_def get_efforts_for_program_def
      first_def get_latest_programs_def group_by_program_id_max_def Let_def
      split: sum.splits)

section \<open>The profile reconciliation\<close>

lemma manage_reconcile:
  "manage_local_profile effort_inst inherit_flag input X db =
     (fst (reconcile inherit_flag input (local_id effort_inst X) (profiles db X) (next_profile_pk db X)),
      db\<lparr> profiles := (profiles db)
             (X := fst (snd (reconcile inherit_flag input (local_id effort_inst X)
                               (profiles db X) (next_profile_pk db X)))),
          next_profile_pk := (next_profile_pk db)
             (X := snd (snd (reconcile inherit_flag input (local_id effort_inst X)
                               (profiles db X) (next_profile_pk db X)))) \<rparr>)"
  by (auto simp: manage_local_profile_def reconcile_def related_profile_def
      create_effort_relation_def hard_delete_profile_def Let_def
      split: option.splits)

lemma aspect_fun_eq:
  "f Statement_of_work_profile = g Statement_of_work_profile \<Longrightarrow>
   f Technical_points_of_contact = g Technical_points_of_contact \<Longrightarrow>
   f Developer_setup = g Developer_setup \<Longrightarrow>
   f Work_location = g Work_location \<Longrightarrow> f = g"
proof
  fix X :: aspect
  assume "f Statement_of_work_profile = g Statement_of_work_profile"
    "f Technical_points_of_contact = g Technical_points_of_contact"
    "f Developer_setup = g Developer_setup"
    "f Work_location = g Work_location"
  then show "f X = g X" by (cases X) simp_all
qed

lemma update_effort_closed:
  "update_effort new_effort_data program_instance parent_instance found db =
     (updated_instance new_effort_data program_instance parent_instance found db,
      db\<lparr> efforts := map (\<lambda>e. if pk e = pk found
                             then updated_instance new_effort_data program_instance parent_instance found db
                             else e) (efforts db),
          profiles := (\<lambda>X. fst (snd (reconciled new_effort_data found db X))),
          next_profile_pk := (\<lambda>X. snd (snd (reconciled new_effort_data found db X))) \<rparr>)"
proof -
  let ?R = "reconciled new_effort_data found db"
  let ?S = Statement_of_work_profile and ?T = Technical_points_of_contact
  let ?D = Developer_setup and ?W = Work_location
  let ?fl = "data_inherit new_effort_data" and ?in = "data_profile new_effort_data"
  let ?i0 = "found\<lparr> name := data_name new_effort_data,
                        program_catalog_info := info_id program_instance,
                        inherit := data_inherit new_effort_data,
                        parent := map_option pk parent_instance \<rparr>"
  let ?i1 = "?i0\<lparr> local_id := (local_id ?i0)(?S := fst (?R ?S)) \<rparr>"
  let ?i2 = "?i1\<lparr> local_id := (local_id ?i1)(?T := fst (?R ?T)) \<rparr>"
  let ?i3 = "?i2\<lparr> local_id := (local_id ?i2)(?D := fst (?R ?D)) \<rparr>"
  let ?i4 = "?i3\<lparr> local_id := (local_id ?i3)(?W := fst (?R ?W)) \<rparr>"
  let ?d1 = "db\<lparr> profiles := (profiles db)(?S := fst (snd (?R ?S))),
                   next_profile_pk := (next_profile_pk db)(?S := snd (snd (?R ?S))) \<rparr>"
  let ?d2 = "?d1\<lparr> profiles := (profiles ?d1)(?T := fst (snd (?R ?T))),
                   next_profile_pk := (next_profile_pk ?d1)(?T := snd (snd (?R ?T))) \<rparr>"
  let ?d3 = "?d2\<lparr> profiles := (profiles ?d2)(?D := fst (snd (?R ?D))),
                   next_profile_pk := (next_profile_pk ?d2)(?D := snd (snd (?R ?D))) \<rparr>"
  let ?d4 = "?d3\<lparr> profiles := (profiles ?d3)(?W := fst (snd (?R ?W))),
                   next_profile_pk := (next_profile_pk ?d3)(?W := snd (snd (?R ?W))) \<rparr>"
  have r1: "reconcile (?fl ?S) (?in ?S) (local_id ?i0 ?S) (profiles db ?S) (next_profile_pk db ?S) = ?R ?S"
    by (simp add: reconciled_def)
  have r2: "reconcile (?fl ?T) (?in ?T) (local_id ?i1 ?T) (profiles ?d1 ?T) (next_profile_pk ?d1 ?T) = ?R ?T"
    by (simp add: reconciled_def)
  have r3: "reconcile (?fl ?D) (?in ?D) (local_id ?i2 ?D) (profiles ?d2 ?D) (next_profile_pk ?d2 ?D) = ?R ?D"
    by (simp add: reconciled_def)
  have r4: "reconcile (?fl ?W) (?in ?W) (local_id ?i3 ?W) (profiles ?d3 ?W) (next_profile_pk ?d3 ?W) = ?R ?W"
    by (simp add: reconciled_def)
  have m1: "manage_local_profile ?i0 (?fl ?S) (?in ?S) ?S db = (fst (?R ?S), ?d1)"
    unfolding manage_reconcile r1 ..
  have m2: "manage_local_profile ?i1 (?fl ?T) (?in ?T) ?T ?d1 = (fst (?R ?T), ?d2)"
    unfolding manage_reconcile r2 ..
  have m3: "manage_local_profile ?i2 (?fl ?D) (?in ?D) ?D ?d2 = (fst (?R ?D), ?d3)"
    unfolding manage_reconcile r3 ..
  have m4: "manage_local_profile ?i3 (?fl ?W) (?in ?W) ?W ?d3 = (fst (?R ?W), ?d4)"
    unfolding manage_reconcile r4 ..
  have u: "update_effort new_effort_data program_instance parent_instance found db
           = (?i4, save_effort ?i4 ?d4)"
    unfolding update_effort_def Let_def
    by (simp only: m1 m2 m3 m4 prod.case)
  have l: "local_id ?i4 = (\<lambda>X. fst (?R X))"
    by (rule aspect_fun_eq) simp_all
  have p: "profiles ?d4 = (\<lambda>X. fst (snd (?R X)))"
    by (rule aspect_fun_eq) simp_all
  have n: "next_profile_pk ?d4 = (\<lambda>X. snd (snd (?R X)))"
    by (rule aspect_fun_eq) simp_all
  have i4: "?i4 = updated_instance new_effort_data program_instance parent_instance found db"
    using l by (simp add: updated_instance_def)
  have d4: "?d4 = db\<lparr> profiles := (\<lambda>X. fst (snd (?R X))),
                        next_profile_pk := (\<lambda>X. snd (snd (?R X))) \<rparr>"
    using p n by simp
  show ?thesis
    unfolding u i4 d4 by (simp add: save_effort_def updated_instance_def)
qed

section \<open>The saved effort and its linked efforts\<close>

lemma resolve_link_cases:
  "resolve_link db raw_item acc =
     (if raises db raw_item
      then Inl (projl (resolve_identifier_to_instance db (identifier_of raw_item)))
      else Inr (fst acc @ List.map_filter (target_of db) [raw_item],
                snd acc @ [stored_identifier db raw_item]))"
  by (cases "resolve_identifier_to_instance db (identifier_of raw_item)")
     (auto simp: resolve_link_def raises_def target_of_def stored_identifier_def Let_def
                 List.map_filter_simps split: option.splits)

lemma resolve_links_from_ok:
  assumes "\<forall>raw_item\<in>set links. \<not> raises db raw_item"
  shows "resolve_links_from db links acc =
           Inr (fst acc @ List.map_filter (target_of db) links,
                snd acc @ map (stored_identifier db) links)"
  using assms
proof (induction links arbitrary: acc)
  case Nil
  then show ?case by (simp add: List.map_filter_simps)
next
  case (Cons raw_item links)
  from Cons.prems have nr: "\<not> raises db raw_item"
    and rest: "\<forall>raw_item\<in>set links. \<not> raises db raw_item" by simp_all
  let ?acc = "(fst acc @ List.map_filter (target_of db) [raw_item],
               snd acc @ [stored_identifier db raw_item])"
  have "resolve_links_from db (raw_item # links) acc = resolve_links_from db links ?acc"
    using nr by (simp add: resolve_link_cases)
  also have "\<dots> = Inr (fst ?acc @ List.map_filter (target_of db) links,
                         snd ?acc @ map (stored_identifier db) links)"
    by (rule Cons.IH[OF rest])
  also have "\<dots> = Inr (fst acc @ List.map_filter (target_of db) (raw_item # links),
                         snd acc @ map (stored_identifier db) (raw_item # links))"
    by (simp add: List.map_filter_def)
  finally show ?case .
qed


lemma resolve_links_from_returns:
  assumes "resolve_links_from db links acc = Inr r"
  shows "\<forall>raw_item\<in>set links. \<not> raises db raw_item"
  using assms
proof (induction links arbitrary: acc)
  case Nil
  then show ?case by simp
next
  case (Cons raw_item links)
  show ?case
  proof (cases "raises db raw_item")
    case True
    with Cons.prems show ?thesis by (simp add: resolve_link_cases)
  next
    case False
    with Cons.prems obtain acc' where "resolve_links_from db links acc' = Inr r"
      by (auto simp: resolve_link_cases)
    from Cons.IH[OF this] False show ?thesis by simp
  qed
qed

text \<open>The third step returns exactly when no entry raises, and raises the error of an entry.\<close>

lemma handle_linked_ok:
  assumes "\<forall>links. raw = Some links \<longrightarrow> (\<forall>raw_item\<in>set links. \<not> raises db raw_item)"
  shows "handle_linked_software_efforts m2m raw saved db = Inr (stored_links m2m raw saved db)"
proof (cases raw)
  case None
  then show ?thesis by (simp add: handle_linked_software_efforts_def stored_links_def)
next
  case (Some links)
  with assms have "\<forall>raw_item\<in>set links. \<not> raises db raw_item" by simp
  from resolve_links_from_ok[OF this, of "([], [])"] Some show ?thesis
    by (simp add: handle_linked_software_efforts_def stored_links_def resolve_links_def)
qed

lemma handle_linked_returns:
  assumes "handle_linked_software_efforts m2m raw saved db = Inr db'"
  shows "db' = stored_links m2m raw saved db"
    and "\<forall>links. raw = Some links \<longrightarrow> (\<forall>raw_item\<in>set links. \<not> raises db raw_item)"
proof -
  show nr: "\<forall>links. raw = Some links \<longrightarrow> (\<forall>raw_item\<in>set links. \<not> raises db raw_item)"
  proof (intro allI impI)
    fix links assume r: "raw = Some links"
    with assms obtain x where "resolve_links_from db links ([], []) = Inr x"
      by (cases "resolve_links db links")
         (simp_all add: handle_linked_software_efforts_def resolve_links_def)
    then show "\<forall>raw_item\<in>set links. \<not> raises db raw_item"
      by (rule resolve_links_from_returns)
  qed
  from handle_linked_ok[OF nr, of m2m saved] assms show "db' = stored_links m2m raw saved db"
    by simp
qed


lemma first_filter_replace:
  assumes "\<exists>x\<in>set es. pk x = k" and "pk e' = k"
  shows "first (filter (\<lambda>x. pk x = k) (map (\<lambda>x. if pk x = k then e' else x) es)) = Some e'"
  using assms
proof (induction es)
  case Nil
  then show ?case by simp
next
  case (Cons x es)
  then show ?case by (cases "pk x = k") (auto simp: first_def)
qed

lemma first_filter_append_new:
  assumes "list_all (\<lambda>e. pk e < k) es" and "pk e' = k"
  shows "first (filter (\<lambda>x. pk x = k) (es @ [e'])) = Some e'"
proof -
  have "filter (\<lambda>x. pk x = k) es = []"
    using assms(1) by (auto simp: filter_empty_conv list_all_iff)
  then show ?thesis using assms(2) by (simp add: first_def)
qed

lemma first_filter_map_update:
  assumes "first (filter (\<lambda>x. pk x = k) es) = Some e" and "\<And>x. pk (f x) = pk x"
  shows "first (filter (\<lambda>x. pk x = k) (map (\<lambda>x. if pk x = k then f x else x) es)) = Some (f e)"
  using assms(1)
proof (induction es)
  case Nil
  then show ?case by (simp add: first_def)
next
  case (Cons x es)
  then show ?case using assms(2) by (cases "pk x = k") (simp_all add: first_def)
qed

lemma first_Some_in_set: "first xs = Some x \<Longrightarrow> x \<in> set xs"
  by (cases xs) (simp_all add: first_def)

lemma first_filter_Some: "first (filter P xs) = Some x \<Longrightarrow> x \<in> set xs \<and> P x"
  using first_Some_in_set[of "filter P xs" x] by simp

lemma create_profile_if_local_frame:
  "efforts (snd (create_profile_if_local d X db)) = efforts db"
  "next_effort_pk (snd (create_profile_if_local d X db)) = next_effort_pk db"
  "program_infos (snd (create_profile_if_local d X db)) = program_infos db"
  by (simp_all add: create_profile_if_local_def create_effort_relation_def Let_def
      split: option.splits)

lemma create_effort_saved:
  assumes "list_all (\<lambda>e. pk e < next_effort_pk db) (efforts db)"
    and "create_effort m2m fresh d p parent_instance db = (instance, db1)"
  shows "effort_by_pk db1 (pk instance) = Some instance"
    and "pk instance = next_effort_pk db"
    and "uuid instance = fresh"
    and "efforts db1 = efforts db @ [instance]"
    and "program_infos db1 = program_infos db"
proof -
  obtain r1 d1 where c1: "create_profile_if_local d Statement_of_work_profile db = (r1, d1)"
    by (cases "create_profile_if_local d Statement_of_work_profile db")
  obtain r2 d2 where c2: "create_profile_if_local d Technical_points_of_contact d1 = (r2, d2)"
    by (cases "create_profile_if_local d Technical_points_of_contact d1")
  obtain r3 d3 where c3: "create_profile_if_local d Developer_setup d2 = (r3, d3)"
    by (cases "create_profile_if_local d Developer_setup d2")
  obtain r4 d4 where c4: "create_profile_if_local d Work_location d3 = (r4, d4)"
    by (cases "create_profile_if_local d Work_location d3")
  have e: "efforts d4 = efforts db" and n: "next_effort_pk d4 = next_effort_pk db"
    and pi: "program_infos d4 = program_infos db"
    using create_profile_if_local_frame[of d Statement_of_work_profile db]
      create_profile_if_local_frame[of d Technical_points_of_contact d1]
      create_profile_if_local_frame[of d Developer_setup d2]
      create_profile_if_local_frame[of d Work_location d3]
    by (simp_all add: c1 c2 c3 c4)
  from assms(2) have inst: "pk instance = next_effort_pk db" "uuid instance = fresh"
    and db1: "db1 = d4\<lparr> efforts := efforts d4 @ [instance], next_effort_pk := Suc (next_effort_pk d4) \<rparr>"
    by (auto simp: create_effort_def c1 c2 c3 c4 Let_def n)
  show "pk instance = next_effort_pk db" "uuid instance = fresh" by (rule inst)+
  show "efforts db1 = efforts db @ [instance]" by (simp add: db1 e)
  show "program_infos db1 = program_infos db" by (simp add: db1 pi)
  show "effort_by_pk db1 (pk instance) = Some instance"
    using first_filter_append_new[OF assms(1), of "instance"] inst(1)
    by (simp add: effort_by_pk_def db1 e)
qed

lemma update_effort_saved:
  assumes "found \<in> set (efforts db)"
    and "update_effort d p parent_instance found db = (instance, db1)"
  shows "effort_by_pk db1 (pk instance) = Some instance"
    and "pk instance = pk found"
    and "uuid instance = uuid found"
    and "efforts db1 = map (\<lambda>e. if pk e = pk found then instance else e) (efforts db)"
    and "program_infos db1 = program_infos db"
proof -
  from assms(2) have i: "instance = updated_instance d p parent_instance found db"
    and d1: "db1 = db\<lparr> efforts := map (\<lambda>e. if pk e = pk found
                             then updated_instance d p parent_instance found db
                             else e) (efforts db),
          profiles := (\<lambda>X. fst (snd (reconciled d found db X))),
          next_profile_pk := (\<lambda>X. snd (snd (reconciled d found db X))) \<rparr>"
    by (simp_all add: update_effort_closed)
  show pkk: "pk instance = pk found" and "uuid instance = uuid found"
    by (simp_all add: i updated_instance_def)
  show "efforts db1 = map (\<lambda>e. if pk e = pk found then instance else e) (efforts db)"
    by (simp add: d1 i)
  show "program_infos db1 = program_infos db" by (simp add: d1)
  have ex: "\<exists>x\<in>set (efforts db). pk x = pk found" using assms(1) by blast
  have pku: "pk (updated_instance d p parent_instance found db) = pk found"
    by (simp add: updated_instance_def)
  from first_filter_replace[OF ex pku]
  have "effort_by_pk db1 (pk found) = Some (updated_instance d p parent_instance found db)"
    by (simp add: effort_by_pk_def d1)
  then show "effort_by_pk db1 (pk instance) = Some instance"
    by (simp only: i pku)
qed

lemma upsert_saved:
  assumes "keys_consistent db"
    and "upsert_effort m2m fresh d p db = (instance, db1)"
  shows "effort_by_pk db1 (pk instance) = Some instance"
proof -
  let ?inst = "case data_uuid d of None \<Rightarrow> None
      | Some effort_uuid \<Rightarrow> if effort_uuid = [] then None else effort_by_uuid db effort_uuid"
  show ?thesis
  proof (cases ?inst)
    case None
    with assms(2) obtain par where "create_effort m2m fresh d p par db = (instance, db1)"
      by (auto simp: upsert_effort_def Let_def)
    moreover have "list_all (\<lambda>e. pk e < next_effort_pk db) (efforts db)"
      using assms(1) by (simp add: keys_consistent_def)
    ultimately show ?thesis by (rule create_effort_saved(1)[rotated])
  next
    case (Some found)
    with assms(2) obtain par where u: "update_effort d p par found db = (instance, db1)"
      by (auto simp: upsert_effort_def Let_def)
    from Some have "\<exists>u. effort_by_uuid db u = Some found"
      by (auto split: option.splits if_splits)
    then have "found \<in> set (efforts db)"
      by (auto simp: effort_by_uuid_def dest: first_filter_Some)
    then show ?thesis using u by (rule update_effort_saved(1))
  qed
qed

lemma stored_links_saved:
  assumes "effort_by_pk db1 (pk instance) = Some instance"
  shows "effort_by_pk (stored_links m2m (Some links) instance db1) (pk instance)
         = Some (instance\<lparr> linked_software_efforts :=
              (if m2m
               then Related (set (map pk (List.map_filter (target_of db1) links)))
               else Identifiers (map (stored_identifier db1) links)) \<rparr>)"
proof -
  from assms have ex: "\<exists>x\<in>set (efforts db1). pk x = pk instance"
    by (auto simp: effort_by_pk_def dest: first_filter_Some)
  show ?thesis
  proof (cases m2m)
    case False
    let ?new = "instance\<lparr> linked_software_efforts := Identifiers (map (stored_identifier db1) links) \<rparr>"
    have "pk ?new = pk instance" by simp
    from first_filter_replace[OF ex this] False show ?thesis
      by (simp add: stored_links_def save_effort_def effort_by_pk_def)
  next
    case True
    let ?rel = "Related (set (map pk (List.map_filter (target_of db1) links)))"
    have "first (filter (\<lambda>x. pk x = pk instance)
            (map (\<lambda>e. if pk e = pk instance then e\<lparr> linked_software_efforts := ?rel \<rparr> else e)
               (efforts db1)))
          = Some (instance\<lparr> linked_software_efforts := ?rel \<rparr>)"
      using assms unfolding effort_by_pk_def
      by (intro first_filter_map_update) simp_all
    with True show ?thesis
      by (simp add: stored_links_def effort_by_pk_def)
  qed
qed
section \<open>Linked efforts\<close>

lemma save_unfold:
  assumes "first (filter (\<lambda>row. info_program_id row = ident) (program_infos db)) = Some p"
    and "upsert_effort m2m fresh d p db = (inst, db1)"
  shows "save_efforts_for_program m2m fresh ident (Some d) db
         = handle_linked_software_efforts m2m (data_linked_software_efforts d) inst db1"
  using assms by (simp add: save_efforts_for_program_def)


subsection \<open>The helpers against the words of the specification\<close>














lemma first_true_key_None:
  assumes "\<forall>k\<in>set ks. case map_of d k of None \<Rightarrow> True | Some v \<Rightarrow> \<not> py_truthy v"
  shows "first_true_key ks d = None"
  using assms by (induction ks) (auto split: option.splits)

text \<open>
  C10: in the list shape, when the call returns, an entry that is a dict with no true
  value under \<^verbatim>\<open>uuid\<close>, \<^verbatim>\<open>id\<close> or \<^verbatim>\<open>pk\<close> is stored as null at its position; the stored
  list is as long as the payload's.
\<close>

theorem dict_without_identifier_stored_null:
  assumes "keys_consistent db"
    and "first (filter (\<lambda>row. info_program_id row = ident) (program_infos db)) = Some program_instance"
    and "data_linked_software_efforts new_effort_data = Some raw_links"
    and "upsert_effort False fresh_uuid new_effort_data program_instance db = (inst, db1)"
    and "save_efforts_for_program False fresh_uuid ident (Some new_effort_data) db = Inr db'"
    and "i < length raw_links"
    and "raw_links ! i = DictItem d"
    and "\<forall>k\<in>set [''uuid'', ''id'', ''pk''].
           case map_of d k of None \<Rightarrow> True | Some v \<Rightarrow> \<not> py_truthy v"
  shows "\<exists>saved ids.
      effort_by_pk db' (pk inst) = Some saved
    \<and> linked_software_efforts saved = Identifiers ids
    \<and> length ids = length raw_links
    \<and> ids ! i = None"
proof -
  let ?ids = "map (stored_identifier db1) raw_links"
  have s: "effort_by_pk db1 (pk inst) = Some inst"
    by (rule upsert_saved[OF assms(1,4)])
  have "handle_linked_software_efforts False (Some raw_links) inst db1 = Inr db'"
    using save_unfold[OF assms(2,4)] assms(3,5) by simp
  then have "db' = stored_links False (Some raw_links) inst db1"
    by (rule handle_linked_returns(1))
  then have 1: "effort_by_pk db' (pk inst)
                = Some (inst\<lparr> linked_software_efforts := Identifiers ?ids \<rparr>)"
    using stored_links_saved[OF s, of False raw_links] by simp
  have "identifier_of (raw_links ! i) = None"
    using assms(7) first_true_key_None[OF assms(8)] by (simp add: identifier_of_def)
  then have "stored_identifier db1 (raw_links ! i) = None"
    by (simp add: stored_identifier_def target_of_def resolve_identifier_to_instance_def)
  then have 2: "?ids ! i = None" using assms(6) by simp
  show ?thesis
    by (intro exI[of _ "inst\<lparr> linked_software_efforts := Identifiers ?ids \<rparr>"] exI[of _ ?ids] conjI)
       (simp_all add: 1 2)
qed
section \<open>The storage after an update\<close>

lemma stored_links_frame:
  "profiles (stored_links m2m raw inst db) = profiles db"
  "next_profile_pk (stored_links m2m raw inst db) = next_profile_pk db"
  "program_infos (stored_links m2m raw inst db) = program_infos db"
  "next_effort_pk (stored_links m2m raw inst db) = next_effort_pk db"
  by (simp_all add: stored_links_def save_effort_def split: option.splits)

lemma stored_links_efforts:
  assumes "effort_by_pk db (pk inst) = Some inst" and "distinct (map pk (efforts db))"
  shows "\<exists>lf. efforts (stored_links m2m raw inst db)
            = map (\<lambda>e. if pk e = pk inst then inst\<lparr> linked_software_efforts := lf \<rparr> else e) (efforts db)"
proof (cases raw)
  case None
  have "map (\<lambda>e. if pk e = pk inst then inst\<lparr> linked_software_efforts := linked_software_efforts inst \<rparr> else e)
          (efforts db) = efforts db"
    using assms
  proof -
    have "\<And>e. e \<in> set (efforts db) \<Longrightarrow> pk e = pk inst \<Longrightarrow> e = inst"
    proof -
      fix e assume e: "e \<in> set (efforts db)" "pk e = pk inst"
      from assms(1) have "inst \<in> set (efforts db)"
        by (auto simp: effort_by_pk_def dest: first_filter_Some)
      with e assms(2) show "e = inst" by (meson distinct_map inj_onD)
    qed
    then have "\<And>e. e \<in> set (efforts db) \<Longrightarrow>
        (if pk e = pk inst then inst\<lparr> linked_software_efforts := linked_software_efforts inst \<rparr> else e) = e"
      by auto
    then show ?thesis by (rule map_idI)
  qed
  with None show ?thesis
    by (intro exI[of _ "linked_software_efforts inst"])
       (simp add: stored_links_def)
next
  case (Some links)
  show ?thesis
  proof (cases m2m)
    case False
    with Some show ?thesis
      by (intro exI[of _ "Identifiers (map (stored_identifier db) links)"])
         (simp add: stored_links_def save_effort_def)
  next
    case True
    let ?lf = "Related (set (map pk (List.map_filter (target_of db) links)))"
    have "\<And>e. e \<in> set (efforts db) \<Longrightarrow> pk e = pk inst \<Longrightarrow> e = inst"
    proof -
      fix e assume e: "e \<in> set (efforts db)" "pk e = pk inst"
      from assms(1) have "inst \<in> set (efforts db)"
        by (auto simp: effort_by_pk_def dest: first_filter_Some)
      with e assms(2) show "e = inst" by (meson distinct_map inj_onD)
    qed
    then have "map (\<lambda>e. if pk e = pk inst then e\<lparr> linked_software_efforts := ?lf \<rparr> else e) (efforts db)
             = map (\<lambda>e. if pk e = pk inst then inst\<lparr> linked_software_efforts := ?lf \<rparr> else e) (efforts db)"
      by (intro map_cong) auto
    with Some True show ?thesis
      by (intro exI[of _ ?lf])
         (simp add: stored_links_def)
  qed
qed

lemma first_uuid_after_replace:
  assumes "distinct (map pk es)"
    and "first (filter (\<lambda>e. uuid e = u) es) = Some found"
    and "uuid saved = u"
  shows "first (filter (\<lambda>e. uuid e = u) (map (\<lambda>e. if pk e = pk found then saved else e) es))
         = Some saved"
  using assms(1,2)
proof (induction es)
  case Nil
  then show ?case by (simp add: first_def)
next
  case (Cons x es)
  show ?case
  proof (cases "uuid x = u")
    case True
    with Cons.prems(2) have "found = x" by (simp add: first_def)
    with assms(3) show ?thesis by (simp add: first_def)
  next
    case False
    with Cons.prems(2) have f: "first (filter (\<lambda>e. uuid e = u) es) = Some found" by simp
    then have "found \<in> set es" by (auto dest: first_filter_Some)
    with Cons.prems(1) have "pk x \<noteq> pk found" by auto
    with False Cons.IH[OF _ f] Cons.prems(1) show ?thesis by simp
  qed
qed

text \<open>The storage after a call that updates an effort.\<close>

lemma save_update_result:
  assumes cons: "keys_consistent db"
    and prog: "first (filter (\<lambda>row. info_program_id row = ident) (program_infos db)) = Some p"
    and u: "data_uuid d = Some u" "u \<noteq> []"
    and found: "effort_by_uuid db u = Some found"
    and returns: "save_efforts_for_program m2m fresh ident (Some d) db = Inr db'"
  shows "\<exists>saved.
      effort_by_pk db' (pk found) = Some saved
    \<and> effort_by_uuid db' u = Some saved
    \<and> pk saved = pk found
    \<and> inherit saved = data_inherit d
    \<and> local_id saved = (\<lambda>X. fst (reconciled d found db X))
    \<and> profiles db'
        = (\<lambda>X. fst (snd (reconciled d found db X)))
    \<and> next_profile_pk db'
        = (\<lambda>X. snd (snd (reconciled d found db X)))
    \<and> program_infos db' = program_infos db
    \<and> next_effort_pk db' = next_effort_pk db
    \<and> map pk (efforts db') = map pk (efforts db)"
proof -
  let ?db' = db'
  obtain par where up: "upsert_effort m2m fresh d p db = update_effort d p par found db"
    using u found by (simp add: upsert_effort_def Let_def)
  let ?inst = "updated_instance d p par found db"
  let ?db1 = "db\<lparr> efforts := map (\<lambda>e. if pk e = pk found then ?inst else e) (efforts db),
          profiles := (\<lambda>X. fst (snd (reconciled d found db X))),
          next_profile_pk := (\<lambda>X. snd (snd (reconciled d found db X))) \<rparr>"
  have up': "upsert_effort m2m fresh d p db = (?inst, ?db1)"
    unfolding up by (rule update_effort_closed)
  have "handle_linked_software_efforts m2m (data_linked_software_efforts d) ?inst ?db1 = Inr db'"
    using save_unfold[OF prog up'] returns by simp
  then have db': "?db' = stored_links m2m (data_linked_software_efforts d) ?inst ?db1"
    by (rule handle_linked_returns(1))
  have pki: "pk ?inst = pk found" and uui: "uuid ?inst = uuid found"
    by (simp_all add: updated_instance_def)
  have fin: "found \<in> set (efforts db)" and fu: "uuid found = u"
    using found by (auto simp: effort_by_uuid_def dest: first_filter_Some)
  have dist: "distinct (map pk (efforts db))" using cons by (simp add: keys_consistent_def)
  have pks1: "map pk (efforts ?db1) = map pk (efforts db)"
    using pki by (auto simp: comp_def intro!: map_idI)
  have s1: "effort_by_pk ?db1 (pk ?inst) = Some ?inst"
    by (rule upsert_saved[OF cons up'])
  have d1: "distinct (map pk (efforts ?db1))" by (simp only: pks1 dist)
  from stored_links_efforts[OF s1 d1, of m2m "data_linked_software_efforts d"]
  obtain lf where ef: "efforts ?db' =
      map (\<lambda>e. if pk e = pk ?inst then ?inst\<lparr> linked_software_efforts := lf \<rparr> else e) (efforts ?db1)"
    unfolding db' by blast
  let ?saved = "?inst\<lparr> linked_software_efforts := lf \<rparr>"
  have ef': "efforts ?db' = map (\<lambda>e. if pk e = pk found then ?saved else e) (efforts db)"
    unfolding ef using pki by (auto simp: comp_def)
  have ex: "\<exists>x\<in>set (efforts db). pk x = pk found" using fin by blast
  have 1: "effort_by_pk ?db' (pk found) = Some ?saved"
    unfolding effort_by_pk_def ef'
    by (rule first_filter_replace[OF ex]) (simp add: pki)
  have 2: "effort_by_uuid ?db' u = Some ?saved"
    unfolding effort_by_uuid_def ef'
    by (rule first_uuid_after_replace[OF dist])
       (use found in \<open>simp_all add: effort_by_uuid_def uui fu\<close>)
  have 3: "pk ?saved = pk found" by (simp add: pki)
  have 4: "inherit ?saved = data_inherit d" by (simp add: updated_instance_def)
  have 5: "local_id ?saved = (\<lambda>X. fst (reconciled d found db X))"
    by (simp add: updated_instance_def)
  have 6: "profiles ?db' = (\<lambda>X. fst (snd (reconciled d found db X)))"
    unfolding db' by (simp add: stored_links_frame)
  have 7: "next_profile_pk ?db' = (\<lambda>X. snd (snd (reconciled d found db X)))"
    unfolding db' by (simp add: stored_links_frame)
  have 8: "program_infos ?db' = program_infos db"
    unfolding db' by (simp add: stored_links_frame)
  have 9: "next_effort_pk ?db' = next_effort_pk db"
    unfolding db' by (simp add: stored_links_frame)
  have 10: "map pk (efforts ?db') = map pk (efforts db)"
    unfolding ef' using 3 by (auto simp: comp_def intro!: map_idI)
  show ?thesis
    by (intro exI[of _ ?saved] conjI 1 2 3 4 5 6 7 8 9 10)
qed


text \<open>
  The call returns when no identifier of the payload's entries is made of digits that
  are not all decimal.
\<close>

lemma no_raise:
  assumes "case identifier_of raw_item of None \<Rightarrow> True
           | Some s \<Rightarrow> isdigit s \<longrightarrow> list_all is_decimal s"
  shows "\<not> raises db raw_item"
  using assms
  by (auto simp: raises_def resolve_identifier_to_instance_def int_of_digits_def
      split: option.splits)

lemma save_returns:
  assumes "first (filter (\<lambda>row. info_program_id row = ident) (program_infos db)) = Some p"
    and "\<forall>links. data_linked_software_efforts d = Some links \<longrightarrow>
           (\<forall>raw_item\<in>set links. case identifier_of raw_item of None \<Rightarrow> True
              | Some s \<Rightarrow> isdigit s \<longrightarrow> list_all is_decimal s)"
  shows "\<exists>db'. save_efforts_for_program m2m fresh ident (Some d) db = Inr db'"
proof -
  obtain inst db1 where up: "upsert_effort m2m fresh d p db = (inst, db1)"
    by (cases "upsert_effort m2m fresh d p db")
  have "\<forall>links. data_linked_software_efforts d = Some links \<longrightarrow>
          (\<forall>raw_item\<in>set links. \<not> raises db1 raw_item)"
    using assms(2) no_raise by blast
  from handle_linked_ok[OF this] save_unfold[OF assms(1) up] show ?thesis by simp
qed
section \<open>Local profiles of an updated effort\<close>

lemma set_attributes_add: "set_attributes items row = row ++ map_of (rev items)"
proof (induction items arbitrary: row)
  case Nil
  then show ?case by (simp add: set_attributes_def)
next
  case (Cons x items)
  obtain k v where x: "x = (k, v)" by (cases x)
  have "set_attributes (x # items) row = set_attributes items (row(k \<mapsto> v))"
    by (simp add: set_attributes_def x)
  also have "\<dots> = row(k \<mapsto> v) ++ map_of (rev items)" by (rule Cons.IH)
  also have "\<dots> = row ++ map_of (rev (x # items))"
    by (rule ext) (simp add: x map_add_def split: option.splits)
  finally show ?case .
qed

lemma set_attributes_idem:
  "set_attributes items (set_attributes items row) = set_attributes items row"
  by (rule ext) (simp add: set_attributes_add map_add_def split: option.splits)

lemma reconcile_related:
  "reconcile f i fk (profiles db X) nxt =
     (if f then
        (case related_profile db X fk of
           Some (k, row) \<Rightarrow> (None, (profiles db X)(k := None), nxt)
         | None \<Rightarrow> (None, profiles db X, nxt))
      else
        (case i of
           None \<Rightarrow> (map_option fst (related_profile db X fk), profiles db X, nxt)
         | Some items \<Rightarrow>
             (case related_profile db X fk of
                Some (k, row) \<Rightarrow> (Some k, (profiles db X)(k \<mapsto> set_attributes items row), nxt)
              | None \<Rightarrow>
                  if items = [] then (None, profiles db X, nxt)
                  else (Some nxt, (profiles db X)(nxt \<mapsto> set_attributes items Map.empty), Suc nxt))))"
  unfolding reconcile_def related_profile_def Let_def by (rule refl)

lemma reconcile_linked:
  assumes "fk = Some k" and "table k = Some row"
  shows "reconcile f i fk table nxt =
     (if f then (None, table(k := None), nxt)
      else case i of
             None \<Rightarrow> (Some k, table, nxt)
           | Some items \<Rightarrow> (Some k, table(k \<mapsto> row ++ map_of (rev items)), nxt))"
  using assms by (simp add: reconcile_def set_attributes_add split: option.splits)

lemma reconcile_unlinked:
  assumes "\<forall>k. fk = Some k \<longrightarrow> table k = None"
  shows "reconcile f i fk table nxt =
     (if f then (None, table, nxt)
      else case i of
             None \<Rightarrow> (None, table, nxt)
           | Some items \<Rightarrow>
               if items = [] then (None, table, nxt)
               else (Some nxt, table(nxt \<mapsto> map_of (rev items)), Suc nxt))"
  using assms by (cases fk) (simp_all add: reconcile_def set_attributes_add split: option.splits)

text \<open>
  C5: a call that updates an effort (its payload carries the UUID of a stored effort, and
  the call returns) treats each aspect \<open>X\<close> by the flag and the data of that aspect
  alone. Let the effort refer to a row \<open>k\<close> of the table of \<open>X\<close>. When \<open>inherit_X\<close> is
  true, the foreign key of the saved effort is null and row \<open>k\<close> is gone. When the flag
  is false and the payload supplies no data (no profile, or one without attributes), the
  effort still refers to \<open>k\<close> and the table is unchanged. When the flag is false and
  data is supplied, the effort still refers to \<open>k\<close>, and row \<open>k\<close> holds its former
  attributes overwritten by those given, the table having no other change. Let the
  effort refer to no row. Then with the flag true, or without data, the foreign key is
  null and the table unchanged; with the flag false and data supplied, a row is created
  under a key that was not in use, it holds the attributes given, and the saved effort
  refers to it.
\<close>

theorem update_reconciles_each_aspect:
  assumes "keys_consistent db"
    and "first (filter (\<lambda>row. info_program_id row = ident) (program_infos db)) = Some program_instance"
    and "data_uuid new_effort_data = Some u" and "u \<noteq> []"
    and "effort_by_uuid db u = Some found"
    and "save_efforts_for_program m2m fresh ident (Some new_effort_data) db = Inr db'"
  shows "\<exists>saved.
      effort_by_uuid db' u = Some saved
    \<and> pk saved = pk found
    \<and> (\<forall>k row. local_id found X = Some k \<and> profiles db X k = Some row \<longrightarrow>
          (data_inherit new_effort_data X \<longrightarrow>
             local_id saved X = None \<and> profiles db' X = (profiles db X)(k := None))
        \<and> (\<not> data_inherit new_effort_data X
             \<and> (data_profile new_effort_data X = None \<or> data_profile new_effort_data X = Some []) \<longrightarrow>
             local_id saved X = Some k \<and> profiles db' X = profiles db X)
        \<and> (\<forall>items. \<not> data_inherit new_effort_data X
             \<and> data_profile new_effort_data X = Some items \<and> items \<noteq> [] \<longrightarrow>
             local_id saved X = Some k
           \<and> profiles db' X = (profiles db X)(k \<mapsto> row ++ map_of (rev items))
           \<and> dom (profiles db' X) = dom (profiles db X)))
    \<and> ((\<forall>k. local_id found X = Some k \<longrightarrow> profiles db X k = None) \<longrightarrow>
          (data_inherit new_effort_data X \<longrightarrow>
             local_id saved X = None \<and> profiles db' X = profiles db X)
        \<and> (\<not> data_inherit new_effort_data X
             \<and> (data_profile new_effort_data X = None \<or> data_profile new_effort_data X = Some []) \<longrightarrow>
             local_id saved X = None \<and> profiles db' X = profiles db X)
        \<and> (\<forall>items. \<not> data_inherit new_effort_data X
             \<and> data_profile new_effort_data X = Some items \<and> items \<noteq> [] \<longrightarrow>
             local_id saved X = Some (next_profile_pk db X)
           \<and> profiles db X (next_profile_pk db X) = None
           \<and> profiles db' X = (profiles db X)(next_profile_pk db X \<mapsto> map_of (rev items))))"
proof -
  let ?d = new_effort_data
  from save_update_result[OF assms]
  obtain saved where s: "effort_by_uuid db' u = Some saved" "pk saved = pk found"
    and l: "local_id saved = (\<lambda>X. fst (reconciled ?d found db X))"
    and p: "profiles db' = (\<lambda>X. fst (snd (reconciled ?d found db X)))"
    by blast
  have lX: "local_id saved X = fst (reconciled ?d found db X)" by (simp add: l)
  have pX: "profiles db' X = fst (snd (reconciled ?d found db X))" by (simp add: p)
  have r: "reconciled ?d found db X =
      reconcile (data_inherit ?d X) (data_profile ?d X)
        (local_id found X) (profiles db X) (next_profile_pk db X)"
    by (simp add: reconciled_def)
  have fresh: "profiles db X (next_profile_pk db X) = None"
  proof (rule ccontr)
    assume "profiles db X (next_profile_pk db X) \<noteq> None"
    with assms(1) have "next_profile_pk db X < next_profile_pk db X"
      unfolding keys_consistent_def by blast
    then show False by simp
  qed
  have a: "\<forall>k row. local_id found X = Some k \<and> profiles db X k = Some row \<longrightarrow>
          (data_inherit ?d X \<longrightarrow>
             local_id saved X = None \<and> profiles db' X = (profiles db X)(k := None))
        \<and> (\<not> data_inherit ?d X
             \<and> (data_profile ?d X = None \<or> data_profile ?d X = Some []) \<longrightarrow>
             local_id saved X = Some k \<and> profiles db' X = profiles db X)
        \<and> (\<forall>items. \<not> data_inherit ?d X
             \<and> data_profile ?d X = Some items \<and> items \<noteq> [] \<longrightarrow>
             local_id saved X = Some k
           \<and> profiles db' X = (profiles db X)(k \<mapsto> row ++ map_of (rev items))
           \<and> dom (profiles db' X) = dom (profiles db X))"
  proof (intro allI impI, elim conjE)
    fix k row
    assume fk: "local_id found X = Some k" and row: "profiles db X k = Some row"
    note rl = reconcile_linked[where table = "profiles db X", OF fk row]
    have e: "(profiles db X)(k \<mapsto> row) = profiles db X" using row by (rule fun_upd_idem)
    have 1: "data_inherit ?d X \<longrightarrow>
             local_id saved X = None \<and> profiles db' X = (profiles db X)(k := None)"
      unfolding lX pX r rl by simp
    have 2: "\<not> data_inherit ?d X
             \<and> (data_profile ?d X = None \<or> data_profile ?d X = Some []) \<longrightarrow>
             local_id saved X = Some k \<and> profiles db' X = profiles db X"
      unfolding lX pX r rl using e by auto
    have 3: "\<forall>items. \<not> data_inherit ?d X
             \<and> data_profile ?d X = Some items \<and> items \<noteq> [] \<longrightarrow>
             local_id saved X = Some k
           \<and> profiles db' X = (profiles db X)(k \<mapsto> row ++ map_of (rev items))
           \<and> dom (profiles db' X) = dom (profiles db X)"
      unfolding lX pX r rl using row by auto
    from 1 2 3 show "(data_inherit ?d X \<longrightarrow>
             local_id saved X = None \<and> profiles db' X = (profiles db X)(k := None))
        \<and> (\<not> data_inherit ?d X
             \<and> (data_profile ?d X = None \<or> data_profile ?d X = Some []) \<longrightarrow>
             local_id saved X = Some k \<and> profiles db' X = profiles db X)
        \<and> (\<forall>items. \<not> data_inherit ?d X
             \<and> data_profile ?d X = Some items \<and> items \<noteq> [] \<longrightarrow>
             local_id saved X = Some k
           \<and> profiles db' X = (profiles db X)(k \<mapsto> row ++ map_of (rev items))
           \<and> dom (profiles db' X) = dom (profiles db X))"
      by (intro conjI)
  qed
  have b: "(\<forall>k. local_id found X = Some k \<longrightarrow> profiles db X k = None) \<longrightarrow>
          (data_inherit ?d X \<longrightarrow>
             local_id saved X = None \<and> profiles db' X = profiles db X)
        \<and> (\<not> data_inherit ?d X
             \<and> (data_profile ?d X = None \<or> data_profile ?d X = Some []) \<longrightarrow>
             local_id saved X = None \<and> profiles db' X = profiles db X)
        \<and> (\<forall>items. \<not> data_inherit ?d X
             \<and> data_profile ?d X = Some items \<and> items \<noteq> [] \<longrightarrow>
             local_id saved X = Some (next_profile_pk db X)
           \<and> profiles db X (next_profile_pk db X) = None
           \<and> profiles db' X = (profiles db X)(next_profile_pk db X \<mapsto> map_of (rev items)))"
  proof
    assume un: "\<forall>k. local_id found X = Some k \<longrightarrow> profiles db X k = None"
    note ru = reconcile_unlinked[where table = "profiles db X", OF un]
    show "(data_inherit ?d X \<longrightarrow>
             local_id saved X = None \<and> profiles db' X = profiles db X)
        \<and> (\<not> data_inherit ?d X
             \<and> (data_profile ?d X = None \<or> data_profile ?d X = Some []) \<longrightarrow>
             local_id saved X = None \<and> profiles db' X = profiles db X)
        \<and> (\<forall>items. \<not> data_inherit ?d X
             \<and> data_profile ?d X = Some items \<and> items \<noteq> [] \<longrightarrow>
             local_id saved X = Some (next_profile_pk db X)
           \<and> profiles db X (next_profile_pk db X) = None
           \<and> profiles db' X = (profiles db X)(next_profile_pk db X \<mapsto> map_of (rev items)))"
      unfolding lX pX r ru using fresh by auto
  qed
  show ?thesis
    by (intro exI[of _ saved] conjI s a b)
qed

lemma keys_consistent_example: "keys_consistent example_storage"
  by (simp add: keys_consistent_def example_storage_def example_effort_def)

lemma example_program:
  "first (filter (\<lambda>row. info_program_id row = 1) (program_infos example_storage))
   = Some \<lparr> info_id = 1, info_program_id = 1, info_program_active = True, info_date = 0 \<rparr>"
  by (simp add: example_storage_def first_def)

lemma example_found: "effort_by_uuid example_storage ''u'' = Some example_effort"
  by (simp add: effort_by_uuid_def example_storage_def example_effort_def first_def)

lemma example_linked:
  "local_id example_effort Statement_of_work_profile = Some 1"
  "profiles example_storage Statement_of_work_profile 1 = Some [''a'' \<mapsto> ''b'']"
  "pk example_effort = 1"
  by (simp_all add: example_storage_def example_effort_def)

theorem update_reconciles_each_aspect_witness:
  "\<exists>db' saved.
      save_efforts_for_program False ''g'' 1
        (Some (payload (Some ''u'') (\<lambda>X. X \<noteq> Statement_of_work_profile)
           (\<lambda>X. if X = Statement_of_work_profile then Some [(''a'', ''c''), (''n'', ''m'')] else None)
           None))
        example_storage = Inr db'
    \<and> effort_by_uuid db' ''u'' = Some saved
    \<and> pk saved = 1
    \<and> local_id saved Statement_of_work_profile = Some 1
    \<and> dom (profiles db' Statement_of_work_profile) = {1}
    \<and> map_option (\<lambda>row. [row ''a'', row ''n'', row ''z''])
        (profiles db' Statement_of_work_profile 1) = Some [Some ''c'', Some ''m'', None]"
proof -
  let ?d = "payload (Some ''u'') (\<lambda>X. X \<noteq> Statement_of_work_profile)
              (\<lambda>X. if X = Statement_of_work_profile then Some [(''a'', ''c''), (''n'', ''m'')] else None)
              None"
  have h3: "data_uuid ?d = Some ''u''" and h4: "''u'' \<noteq> []"
    by (simp_all add: payload_def)
  have ni: "\<not> data_inherit ?d Statement_of_work_profile"
    and dp: "data_profile ?d Statement_of_work_profile = Some [(''a'', ''c''), (''n'', ''m'')]"
    and nl: "\<forall>links. data_linked_software_efforts ?d = Some links \<longrightarrow>
           (\<forall>raw_item\<in>set links. case identifier_of raw_item of None \<Rightarrow> True
              | Some s \<Rightarrow> isdigit s \<longrightarrow> list_all is_decimal s)"
    by (simp_all add: payload_def)
  from save_returns[OF example_program nl, of False "''g''"]
  obtain db' where sv: "save_efforts_for_program False ''g'' 1 (Some ?d) example_storage = Inr db'"
    by blast
  note t = update_reconciles_each_aspect[OF keys_consistent_example example_program h3 h4
      example_found sv, of Statement_of_work_profile]
  from t obtain saved where s: "effort_by_uuid db' ''u'' = Some saved" "pk saved = pk example_effort"
    and c: "\<forall>k row. local_id example_effort Statement_of_work_profile = Some k
             \<and> profiles example_storage Statement_of_work_profile k = Some row \<longrightarrow>
          (data_inherit ?d Statement_of_work_profile \<longrightarrow>
             local_id saved Statement_of_work_profile = None
           \<and> profiles db' Statement_of_work_profile
               = (profiles example_storage Statement_of_work_profile)(k := None))
        \<and> (\<not> data_inherit ?d Statement_of_work_profile
             \<and> (data_profile ?d Statement_of_work_profile = None
                \<or> data_profile ?d Statement_of_work_profile = Some []) \<longrightarrow>
             local_id saved Statement_of_work_profile = Some k
           \<and> profiles db' Statement_of_work_profile = profiles example_storage Statement_of_work_profile)
        \<and> (\<forall>items. \<not> data_inherit ?d Statement_of_work_profile
             \<and> data_profile ?d Statement_of_work_profile = Some items \<and> items \<noteq> [] \<longrightarrow>
             local_id saved Statement_of_work_profile = Some k
           \<and> profiles db' Statement_of_work_profile
               = (profiles example_storage Statement_of_work_profile)(k \<mapsto> row ++ map_of (rev items))
           \<and> dom (profiles db' Statement_of_work_profile)
               = dom (profiles example_storage Statement_of_work_profile))"
    by (elim exE conjE) (rule that)
  have ne: "[(''a'', ''c''), (''n'', ''m'')] \<noteq> []" by simp
  note f = c[rule_format, OF conjI[OF example_linked(1,2)], THEN conjunct2, THEN conjunct2,
      rule_format, OF conjI[OF ni conjI[OF dp ne]]]
  have l: "local_id saved Statement_of_work_profile = Some 1"
    and p: "profiles db' Statement_of_work_profile
               = (profiles example_storage Statement_of_work_profile)
                   (1 \<mapsto> [''a'' \<mapsto> ''b''] ++ map_of (rev [(''a'', ''c''), (''n'', ''m'')]))"
    and d: "dom (profiles db' Statement_of_work_profile)
               = dom (profiles example_storage Statement_of_work_profile)"
    by (rule f[THEN conjunct1], rule f[THEN conjunct2, THEN conjunct1],
        rule f[THEN conjunct2, THEN conjunct2])
  have d': "dom (profiles db' Statement_of_work_profile) = {1}"
    unfolding d by (simp add: example_storage_def)
  have p': "map_option (\<lambda>row. [row ''a'', row ''n'', row ''z''])
        (profiles db' Statement_of_work_profile 1) = Some [Some ''c'', Some ''m'', None]"
    unfolding p by (simp add: map_add_def)
  have k: "pk saved = 1" using s(2) example_linked(3) by simp
  show ?thesis
    by (intro exI[of _ db'] exI[of _ saved] conjI sv s(1) k l d' p')
qed
section \<open>Examples of linked efforts\<close>


lemma keys_consistent_empty: "keys_consistent empty_storage"
  by (simp add: keys_consistent_def empty_storage_def)



lemma example_saved_key:
  "pk (fst (upsert_effort False ''g''
              (payload (Some ''u'') (\<lambda>X. True) (\<lambda>X. None) links)
              \<lparr> info_id = 1, info_program_id = 1, info_program_active = True, info_date = 0 \<rparr>
              example_storage)) = 1"
  by (simp add: upsert_effort_def payload_def example_found update_effort_closed
      updated_instance_def example_effort_def)




theorem dict_without_identifier_stored_null_witness:
  "\<exists>db' saved ids.
      save_efforts_for_program False ''g'' 1
        (Some (payload (Some ''u'') (\<lambda>X. True) (\<lambda>X. None)
           (Some [Item (PyStr ''x''),
                  DictItem [(''name'', PyStr ''n''), (''id'', PyInt 0), (''uuid'', PyStr ''''),
                            (''pk'', PyNone)]])))
        example_storage = Inr db'
    \<and> effort_by_pk db' 1 = Some saved
    \<and> linked_software_efforts saved = Identifiers ids
    \<and> length ids = 2
    \<and> ids ! 1 = None"
proof -
  let ?dict = "[(''name'', PyStr ''n''), (''id'', PyInt 0), (''uuid'', PyStr ''''), (''pk'', PyNone)]"
  let ?links = "[Item (PyStr ''x''), DictItem ?dict]"
  let ?d = "payload (Some ''u'') (\<lambda>X. True) (\<lambda>X. None) (Some ?links)"
  let ?p = "\<lparr> info_id = 1, info_program_id = 1, info_program_active = True, info_date = 0 \<rparr>"
  have h3: "data_linked_software_efforts ?d = Some ?links" by (simp add: payload_def)
  have h4: "upsert_effort False ''g'' ?d ?p example_storage
            = (fst (upsert_effort False ''g'' ?d ?p example_storage),
               snd (upsert_effort False ''g'' ?d ?p example_storage))"
    by simp
  have "\<forall>links. data_linked_software_efforts ?d = Some links \<longrightarrow>
           (\<forall>raw_item\<in>set links. case identifier_of raw_item of None \<Rightarrow> True
              | Some s \<Rightarrow> isdigit s \<longrightarrow> list_all is_decimal s)"
    by (simp add: payload_def identifier_of_def strip_def is_space_def isdigit_def is_digit_def
        is_decimal_def)
  from save_returns[OF example_program this, of False "''g''"]
  obtain db' where sv: "save_efforts_for_program False ''g'' 1 (Some ?d) example_storage = Inr db'"
    by blast
  have h6: "1 < length ?links" by simp
  have h7: "?links ! 1 = DictItem ?dict" by simp
  have h8: "\<forall>k\<in>set [''uuid'', ''id'', ''pk''].
           case map_of ?dict k of None \<Rightarrow> True | Some v \<Rightarrow> \<not> py_truthy v"
    by simp
  from dict_without_identifier_stored_null[OF keys_consistent_example example_program h3 h4 sv
      h6 h7 h8]
  obtain saved ids where
    s: "effort_by_pk db' (pk (fst (upsert_effort False ''g'' ?d ?p example_storage))) = Some saved"
    and r: "linked_software_efforts saved = Identifiers ids" "length ids = length ?links"
      "ids ! 1 = None"
    by (elim exE conjE) (rule that)
  have s': "effort_by_pk db' 1 = Some saved"
    using s by (simp only: example_saved_key)
  have n: "length ids = 2" using r(2) by simp
  show ?thesis
    by (intro exI[of _ db'] exI[of _ saved] exI[of _ ids] conjI sv s' r(1) n r(3))
qed
section \<open>Saving twice\<close>

lemma reconcile_keys:
  assumes "\<forall>k. table k \<noteq> None \<longrightarrow> k < nxt"
  shows "\<forall>k. fst (snd (reconcile f i fk table nxt)) k \<noteq> None
             \<longrightarrow> k < snd (snd (reconcile f i fk table nxt))"
proof -
  have lt: "\<And>k. table k \<noteq> None \<Longrightarrow> k < Suc nxt" using assms by (simp add: less_Suc_eq)
  show ?thesis
    using assms lt unfolding reconcile_def Let_def
    by (auto split: option.splits if_splits)
qed

lemma keys_consistent_after_update:
  assumes cons: "keys_consistent db"
    and pks: "map pk (efforts db') = map pk (efforts db)"
    and nxt: "next_effort_pk db' = next_effort_pk db"
    and p: "profiles db' = (\<lambda>X. fst (snd (reconciled d found db X)))"
    and n: "next_profile_pk db' = (\<lambda>X. snd (snd (reconciled d found db X)))"
  shows "keys_consistent db'"
proof -
  have 1: "distinct (map pk (efforts db'))"
    using cons by (simp add: pks keys_consistent_def)
  have "\<forall>x\<in>set (map pk (efforts db)). x < next_effort_pk db"
    using cons by (simp add: keys_consistent_def list_all_iff)
  then have "\<forall>x\<in>set (map pk (efforts db')). x < next_effort_pk db'"
    by (simp only: pks nxt)
  then have 2: "list_all (\<lambda>e. pk e < next_effort_pk db') (efforts db')"
    by (simp add: list_all_iff)
  have 3: "\<forall>X k. profiles db' X k \<noteq> None \<longrightarrow> k < next_profile_pk db' X"
  proof (intro allI)
    fix X k
    have "\<forall>k. profiles db X k \<noteq> None \<longrightarrow> k < next_profile_pk db X"
      using cons by (simp add: keys_consistent_def)
    from reconcile_keys[OF this]
    show "profiles db' X k \<noteq> None \<longrightarrow> k < next_profile_pk db' X"
      unfolding p n reconciled_def by blast
  qed
  show ?thesis unfolding keys_consistent_def using 1 2 3 by blast
qed

text \<open>
  C6, as amended: for every aspect \<open>X\<close> and every payload whose UUID matches a stored
  effort, with \<open>inherit_X\<close> false and data supplied for \<open>X\<close>, two calls with that
  payload for the same program that both return leave one profile row of \<open>X\<close> for the
  effort. After the first call the effort refers to a row \<open>k\<close> that holds the
  attributes given, and the keys of the table of \<open>X\<close> are those it had before together
  with \<open>k\<close>; after the second call the effort still refers to \<open>k\<close>, the table of
  \<open>X\<close> is the table after the first call, and the efforts stored are those stored
  before the calls. (A call does not return when an identifier among its linked entries
  is made of digits that are not all decimal: it raises, and stores nothing.)
\<close>

theorem repeated_update_keeps_one_profile:
  assumes "keys_consistent db"
    and "first (filter (\<lambda>row. info_program_id row = ident) (program_infos db)) = Some program_instance"
    and "data_uuid new_effort_data = Some u" and "u \<noteq> []"
    and "effort_by_uuid db u = Some found"
    and "\<not> data_inherit new_effort_data X"
    and "data_profile new_effort_data X = Some items" and "items \<noteq> []"
    and "save_efforts_for_program m2m fresh1 ident (Some new_effort_data) db = Inr db1"
    and "save_efforts_for_program m2m fresh2 ident (Some new_effort_data) db1 = Inr db2"
  shows "\<exists>k saved1 saved2 row1.
      effort_by_uuid db1 u = Some saved1
    \<and> local_id saved1 X = Some k
    \<and> profiles db1 X k = Some row1
    \<and> (\<forall>key v. map_of (rev items) key = Some v \<longrightarrow> row1 key = Some v)
    \<and> dom (profiles db1 X) = insert k (dom (profiles db X))
    \<and> effort_by_uuid db2 u = Some saved2
    \<and> local_id saved2 X = Some k
    \<and> profiles db2 X = profiles db1 X
    \<and> map pk (efforts db2) = map pk (efforts db)"
proof -
  let ?d = new_effort_data
  from save_update_result[OF assms(1-5,9)]
  obtain saved1 where s1: "effort_by_uuid db1 u = Some saved1"
    and l1: "local_id saved1 = (\<lambda>X. fst (reconciled ?d found db X))"
    and p1: "profiles db1 = (\<lambda>X. fst (snd (reconciled ?d found db X)))"
    and n1: "next_profile_pk db1 = (\<lambda>X. snd (snd (reconciled ?d found db X)))"
    and i1: "program_infos db1 = program_infos db"
    and e1: "next_effort_pk db1 = next_effort_pk db"
    and k1: "map pk (efforts db1) = map pk (efforts db)"
    by blast
  have r1: "reconciled ?d found db X =
      (case related_profile db X (local_id found X) of
         Some (k, row) \<Rightarrow> (Some k, (profiles db X)(k \<mapsto> set_attributes items row), next_profile_pk db X)
       | None \<Rightarrow> (Some (next_profile_pk db X),
                   (profiles db X)(next_profile_pk db X \<mapsto> set_attributes items Map.empty),
                   Suc (next_profile_pk db X)))"
    unfolding reconciled_def reconcile_related using assms(6-8) by simp
  have "\<exists>k row. reconciled ?d found db X = (Some k, (profiles db X)(k \<mapsto> set_attributes items row),
                    snd (snd (reconciled ?d found db X)))"
    unfolding r1 by (cases "related_profile db X (local_id found X)") auto
  then obtain k row where r1': "fst (reconciled ?d found db X) = Some k"
      "fst (snd (reconciled ?d found db X)) = (profiles db X)(k \<mapsto> set_attributes items row)"
    by (metis fst_conv snd_conv)
  have lk1: "local_id saved1 X = Some k" by (simp add: l1 r1')
  have pk1: "profiles db1 X = (profiles db X)(k \<mapsto> set_attributes items row)"
    by (simp add: p1 r1')
  have row1: "profiles db1 X k = Some (set_attributes items row)"
    by (simp add: pk1)
  have holds: "\<forall>key v. map_of (rev items) key = Some v \<longrightarrow> set_attributes items row key = Some v"
    by (simp add: set_attributes_add map_add_def)
  have dom1: "dom (profiles db1 X) = insert k (dom (profiles db X))"
    unfolding pk1 by simp
  have cons1: "keys_consistent db1"
    by (rule keys_consistent_after_update[OF assms(1) k1 e1 p1 n1])
  have prog1: "first (filter (\<lambda>row. info_program_id row = ident) (program_infos db1))
               = Some program_instance"
    unfolding i1 by (rule assms(2))
  from save_update_result[OF cons1 prog1 assms(3,4) s1 assms(10)]
  obtain saved2 where s2: "effort_by_uuid db2 u = Some saved2"
    and l2: "local_id saved2 = (\<lambda>X. fst (reconciled ?d saved1 db1 X))"
    and p2: "profiles db2 = (\<lambda>X. fst (snd (reconciled ?d saved1 db1 X)))"
    and k2: "map pk (efforts db2) = map pk (efforts db1)"
    by blast
  have rel: "related_profile db1 X (local_id saved1 X) = Some (k, set_attributes items row)"
    by (simp add: related_profile_def lk1 pk1)
  have r2: "reconciled ?d saved1 db1 X =
      (Some k, (profiles db1 X)(k \<mapsto> set_attributes items (set_attributes items row)),
       next_profile_pk db1 X)"
    unfolding reconciled_def reconcile_related rel using assms(6-8) by simp
  have lk2: "local_id saved2 X = Some k" by (simp add: l2 r2)
  have "profiles db2 X = (profiles db1 X)(k \<mapsto> set_attributes items row)"
    by (simp add: p2 r2 set_attributes_idem)
  also have "\<dots> = profiles db1 X"
    unfolding pk1 by simp
  finally have pk2: "profiles db2 X = profiles db1 X" .
  have k2': "map pk (efforts db2) = map pk (efforts db)" using k2 k1 by simp
  show ?thesis
    by (intro exI[of _ k] exI[of _ saved1] exI[of _ saved2] exI[of _ "set_attributes items row"]
        conjI s1 lk1 row1 holds dom1 s2 lk2 pk2 k2')
qed

text \<open>
  With a UUID that matches no effort, each call creates an effort and a profile row.
\<close>

theorem unmatched_uuid_duplicates_profile:
  "(case save_efforts_for_program False ''g1'' 1
           (Some (payload (Some ''u'') (\<lambda>X. X \<noteq> Statement_of_work_profile)
              (\<lambda>X. if X = Statement_of_work_profile then Some [(''a'', ''b'')] else None) None))
           empty_storage of
      Inl e \<Rightarrow> None
    | Inr db1 \<Rightarrow>
        (case save_efforts_for_program False ''g2'' 1
                (Some (payload (Some ''u'') (\<lambda>X. X \<noteq> Statement_of_work_profile)
                   (\<lambda>X. if X = Statement_of_work_profile then Some [(''a'', ''b'')] else None) None))
                db1 of
           Inl e \<Rightarrow> None
         | Inr db2 \<Rightarrow>
             Some (map uuid (efforts db2),
                   map (\<lambda>e. local_id e Statement_of_work_profile) (efforts db2),
                   map (\<lambda>k. map_option (\<lambda>row. row ''a'') (profiles db2 Statement_of_work_profile k))
                     [1, 2, 3])))
   = Some ([''g1'', ''g2''], [Some 1, Some 2], [Some (Some ''b''), Some (Some ''b''), None])"
  by code_simp

theorem repeated_update_keeps_one_profile_witness:
  "\<exists>db1 db2 k saved1 saved2 row1.
      save_efforts_for_program False ''g1'' 1
         (Some (payload (Some ''u'') (\<lambda>X. X \<noteq> Statement_of_work_profile)
              (\<lambda>X. if X = Statement_of_work_profile then Some [(''a'', ''c'')] else None) None))
         example_storage = Inr db1
    \<and> save_efforts_for_program False ''g2'' 1
         (Some (payload (Some ''u'') (\<lambda>X. X \<noteq> Statement_of_work_profile)
              (\<lambda>X. if X = Statement_of_work_profile then Some [(''a'', ''c'')] else None) None))
         db1 = Inr db2
    \<and> effort_by_uuid db1 ''u'' = Some saved1
    \<and> local_id saved1 Statement_of_work_profile = Some k
    \<and> profiles db1 Statement_of_work_profile k = Some row1
    \<and> row1 ''a'' = Some ''c''
    \<and> dom (profiles db1 Statement_of_work_profile) = insert k {1}
    \<and> effort_by_uuid db2 ''u'' = Some saved2
    \<and> local_id saved2 Statement_of_work_profile = Some k
    \<and> profiles db2 Statement_of_work_profile = profiles db1 Statement_of_work_profile"
proof -
  let ?d = "payload (Some ''u'') (\<lambda>X. X \<noteq> Statement_of_work_profile)
              (\<lambda>X. if X = Statement_of_work_profile then Some [(''a'', ''c'')] else None) None"
  have h3: "data_uuid ?d = Some ''u''" and h4: "''u'' \<noteq> []"
    and h6: "\<not> data_inherit ?d Statement_of_work_profile"
    and h7: "data_profile ?d Statement_of_work_profile = Some [(''a'', ''c'')]"
    and h8: "[(''a'', ''c'')] \<noteq> []"
    and nl: "\<forall>links. data_linked_software_efforts ?d = Some links \<longrightarrow>
           (\<forall>raw_item\<in>set links. case identifier_of raw_item of None \<Rightarrow> True
              | Some s \<Rightarrow> isdigit s \<longrightarrow> list_all is_decimal s)"
    by (simp_all add: payload_def)
  from save_returns[OF example_program nl, of False "''g1''"]
  obtain db1 where r1: "save_efforts_for_program False ''g1'' 1 (Some ?d) example_storage = Inr db1"
    by blast
  from save_update_result[OF keys_consistent_example example_program h3 h4 example_found r1]
  have "program_infos db1 = program_infos example_storage" by blast
  with example_program
  have prog1: "first (filter (\<lambda>row. info_program_id row = 1) (program_infos db1))
       = Some \<lparr> info_id = 1, info_program_id = 1, info_program_active = True, info_date = 0 \<rparr>"
    by simp
  from save_returns[OF prog1 nl, of False "''g2''"]
  obtain db2 where r2: "save_efforts_for_program False ''g2'' 1 (Some ?d) db1 = Inr db2"
    by blast
  note t = repeated_update_keeps_one_profile[OF keys_consistent_example example_program h3 h4
      example_found h6 h7 h8 r1 r2]
  from t obtain k saved1 saved2 row1 where
    a: "effort_by_uuid db1 ''u'' = Some saved1"
      "local_id saved1 Statement_of_work_profile = Some k"
      "profiles db1 Statement_of_work_profile k = Some row1"
    and h: "\<forall>key v. map_of (rev [(''a'', ''c'')]) key = Some v \<longrightarrow> row1 key = Some v"
    and b: "dom (profiles db1 Statement_of_work_profile)
              = insert k (dom (profiles example_storage Statement_of_work_profile))"
      "effort_by_uuid db2 ''u'' = Some saved2"
      "local_id saved2 Statement_of_work_profile = Some k"
      "profiles db2 Statement_of_work_profile = profiles db1 Statement_of_work_profile"
    by (elim exE conjE) (rule that)
  have h': "row1 ''a'' = Some ''c''" using h by simp
  have d': "dom (profiles db1 Statement_of_work_profile) = insert k {1}"
    unfolding b(1) by (simp add: example_storage_def)
  show ?thesis
    by (intro exI[of _ db1] exI[of _ db2] exI[of _ k] exI[of _ saved1] exI[of _ saved2]
        exI[of _ row1] conjI r1 r2 a h' d' b(2-4))
qed
section \<open>Deleting an effort\<close>

lemma without_profile_sel:
  "efforts (without_profile effort X db) = efforts db"
  "profiles (without_profile effort X db) Y =
     (if Y = X then (case local_id effort X of None \<Rightarrow> profiles db X
                     | Some k \<Rightarrow> (profiles db X)(k := None))
      else profiles db Y)"
  by (simp_all add: without_profile_def hard_delete_profile_def split: option.splits)

lemma delete_local_step:
  assumes "local_id effort X \<noteq> Some 0"
    and "\<forall>k. local_id effort X = Some k \<longrightarrow> profiles db X k \<noteq> None"
  shows "delete_local effort X (ops, db)
         = Inr (ops @ profile_ops effort X, without_profile effort X db)"
proof (cases "local_id effort X")
  case None
  then show ?thesis by (simp add: delete_local_def profile_ops_def without_profile_def)
next
  case (Some k)
  with assms have "k \<noteq> 0" "profiles db X k \<noteq> None" by auto
  with Some show ?thesis
    by (auto simp: delete_local_def profile_ops_def without_profile_def)
qed

lemma delete_known:
  assumes p: "parse_uuid s = Some v"
    and f: "filter (\<lambda>e. uuid e = v) (efforts db) = [effort]"
    and fk: "\<forall>X k. local_id effort X = Some k \<longrightarrow> k \<noteq> 0 \<and> profiles db X k \<noteq> None"
  shows "\<exists>db'. delete_effort_by_uuid parse_uuid s db
           = (Get_effort v # profile_ops effort Statement_of_work_profile
                @ profile_ops effort Developer_setup
                @ profile_ops effort Technical_points_of_contact
                @ profile_ops effort Work_location
                @ [Hard_delete_effort (pk effort)],
              Inr (db', True))
         \<and> efforts db' = filter (\<lambda>e. pk e \<noteq> pk effort) (efforts db)
         \<and> (\<forall>X. profiles db' X =
               (case local_id effort X of None \<Rightarrow> profiles db X
                | Some k \<Rightarrow> (profiles db X)(k := None)))"
proof -
  let ?upd = "\<lambda>X. case local_id effort X of None \<Rightarrow> profiles db X
                | Some k \<Rightarrow> (profiles db X)(k := None)"
  have nz: "\<And>X. local_id effort X \<noteq> Some 0" using fk by blast
  let ?db1 = "without_profile effort Statement_of_work_profile db"
  let ?db2 = "without_profile effort Developer_setup ?db1"
  let ?db3 = "without_profile effort Technical_points_of_contact ?db2"
  let ?db4 = "without_profile effort Work_location ?db3"
  let ?o1 = "Get_effort v # profile_ops effort Statement_of_work_profile"
  let ?o2 = "Get_effort v # profile_ops effort Statement_of_work_profile
               @ profile_ops effort Developer_setup"
  let ?o3 = "Get_effort v # profile_ops effort Statement_of_work_profile
               @ profile_ops effort Developer_setup
               @ profile_ops effort Technical_points_of_contact"
  let ?o4 = "Get_effort v # profile_ops effort Statement_of_work_profile
               @ profile_ops effort Developer_setup
               @ profile_ops effort Technical_points_of_contact
               @ profile_ops effort Work_location"
  have "\<forall>k. local_id effort Statement_of_work_profile = Some k
          \<longrightarrow> profiles db Statement_of_work_profile k \<noteq> None"
    using fk by simp
  from delete_local_step[OF nz this, of "[Get_effort v]"]
  have d1: "delete_local effort Statement_of_work_profile ([Get_effort v], db) = Inr (?o1, ?db1)"
    by simp
  have "\<forall>k. local_id effort Developer_setup = Some k
          \<longrightarrow> profiles ?db1 Developer_setup k \<noteq> None"
    using fk by (simp add: without_profile_sel)
  from delete_local_step[OF nz this, of ?o1]
  have d2: "delete_local effort Developer_setup (?o1, ?db1) = Inr (?o2, ?db2)"
    by simp
  have "\<forall>k. local_id effort Technical_points_of_contact = Some k
          \<longrightarrow> profiles ?db2 Technical_points_of_contact k \<noteq> None"
    using fk by (simp add: without_profile_sel)
  from delete_local_step[OF nz this, of ?o2]
  have d3: "delete_local effort Technical_points_of_contact (?o2, ?db2) = Inr (?o3, ?db3)"
    by simp
  have "\<forall>k. local_id effort Work_location = Some k
          \<longrightarrow> profiles ?db3 Work_location k \<noteq> None"
    using fk by (simp add: without_profile_sel)
  from delete_local_step[OF nz this, of ?o3]
  have d4: "delete_local effort Work_location (?o3, ?db3) = Inr (?o4, ?db4)"
    by simp
  have r: "delete_effort_by_uuid parse_uuid s db
           = (Get_effort v # profile_ops effort Statement_of_work_profile
                @ profile_ops effort Developer_setup
                @ profile_ops effort Technical_points_of_contact
                @ profile_ops effort Work_location
                @ [Hard_delete_effort (pk effort)],
              Inr (hard_delete_effort (pk effort) ?db4, True))"
    by (simp add: delete_effort_by_uuid_def p f d1 d2 d3 d4)
  have e: "efforts (hard_delete_effort (pk effort) ?db4) = filter (\<lambda>e. pk e \<noteq> pk effort) (efforts db)"
    by (simp add: hard_delete_effort_def without_profile_sel)
  have pp: "\<forall>X. profiles (hard_delete_effort (pk effort) ?db4) X = ?upd X"
  proof
    fix X
    show "profiles (hard_delete_effort (pk effort) ?db4) X = ?upd X"
      by (cases X) (simp_all add: hard_delete_effort_def without_profile_sel split: option.splits)
  qed
  show ?thesis
    by (intro exI[of _ "hard_delete_effort (pk effort) ?db4"] conjI r e pp)
qed

text \<open>
  C8: when the string is not a well-formed UUID the function returns false and performs
  no storage operation. When it is well-formed and no effort has that UUID, the function
  returns false after the one lookup, and the storage is unchanged. When exactly one
  effort has it, and each foreign key of the effort that is present leads to a row, the
  function returns true; its storage operations are the lookup, the hard delete of the
  profile of each aspect whose foreign key is present, and then the hard delete of the
  effort; afterwards no effort row has the key or the UUID of the effort, and the
  profile rows it referred to are gone, the other rows being as before.
\<close>

theorem delete_effort_outcomes:
  "(parse_uuid s = None \<longrightarrow>
      delete_effort_by_uuid parse_uuid s db = ([], Inr (db, False)))
 \<and> (\<forall>v. parse_uuid s = Some v \<and> filter (\<lambda>e. uuid e = v) (efforts db) = [] \<longrightarrow>
      delete_effort_by_uuid parse_uuid s db = ([Get_effort v], Inr (db, False)))
 \<and> (\<forall>v effort. parse_uuid s = Some v \<and> filter (\<lambda>e. uuid e = v) (efforts db) = [effort]
        \<and> (\<forall>X k. local_id effort X = Some k \<longrightarrow> k \<noteq> 0 \<and> profiles db X k \<noteq> None) \<longrightarrow>
      (\<exists>db'. delete_effort_by_uuid parse_uuid s db
             = (Get_effort v # profile_ops effort Statement_of_work_profile
                  @ profile_ops effort Developer_setup
                  @ profile_ops effort Technical_points_of_contact
                  @ profile_ops effort Work_location
                  @ [Hard_delete_effort (pk effort)],
                Inr (db', True))
           \<and> efforts db' = filter (\<lambda>e. pk e \<noteq> pk effort) (efforts db)
           \<and> filter (\<lambda>e. pk e = pk effort) (efforts db') = []
           \<and> filter (\<lambda>e. uuid e = v) (efforts db') = []
           \<and> (\<forall>X. profiles db' X =
                 (case local_id effort X of None \<Rightarrow> profiles db X
                  | Some k \<Rightarrow> (profiles db X)(k := None)))
           \<and> (\<forall>X k. local_id effort X = Some k \<longrightarrow> profiles db' X k = None)))"
proof (intro conjI allI impI)
  assume "parse_uuid s = None"
  then show "delete_effort_by_uuid parse_uuid s db = ([], Inr (db, False))"
    by (simp add: delete_effort_by_uuid_def)
next
  fix v
  assume "parse_uuid s = Some v \<and> filter (\<lambda>e. uuid e = v) (efforts db) = []"
  then show "delete_effort_by_uuid parse_uuid s db = ([Get_effort v], Inr (db, False))"
    by (simp add: delete_effort_by_uuid_def)
next
  fix v effort
  assume a: "parse_uuid s = Some v \<and> filter (\<lambda>e. uuid e = v) (efforts db) = [effort]
        \<and> (\<forall>X k. local_id effort X = Some k \<longrightarrow> k \<noteq> 0 \<and> profiles db X k \<noteq> None)"
  then have p: "parse_uuid s = Some v"
    and f: "filter (\<lambda>e. uuid e = v) (efforts db) = [effort]"
    and fk: "\<forall>X k. local_id effort X = Some k \<longrightarrow> k \<noteq> 0 \<and> profiles db X k \<noteq> None"
    by blast+
  from delete_known[where parse_uuid = parse_uuid and s = s, OF p f fk]
  obtain db' where r: "delete_effort_by_uuid parse_uuid s db
             = (Get_effort v # profile_ops effort Statement_of_work_profile
                  @ profile_ops effort Developer_setup
                  @ profile_ops effort Technical_points_of_contact
                  @ profile_ops effort Work_location
                  @ [Hard_delete_effort (pk effort)],
                Inr (db', True))"
    and e: "efforts db' = filter (\<lambda>e. pk e \<noteq> pk effort) (efforts db)"
    and pp: "\<forall>X. profiles db' X =
                 (case local_id effort X of None \<Rightarrow> profiles db X
                  | Some k \<Rightarrow> (profiles db X)(k := None))"
    by blast
  have e1: "filter (\<lambda>e. pk e = pk effort) (efforts db') = []"
    unfolding e by (simp add: filter_empty_conv)
  have "filter (\<lambda>e. uuid e = v) (efforts db')
        = filter (\<lambda>e. pk e \<noteq> pk effort) (filter (\<lambda>e. uuid e = v) (efforts db))"
    unfolding e by (simp add: conj_commute)
  then have e2: "filter (\<lambda>e. uuid e = v) (efforts db') = []"
    by (simp add: f)
  have gone: "\<forall>X k. local_id effort X = Some k \<longrightarrow> profiles db' X k = None"
    by (simp add: pp)
  show "\<exists>db'. delete_effort_by_uuid parse_uuid s db
             = (Get_effort v # profile_ops effort Statement_of_work_profile
                  @ profile_ops effort Developer_setup
                  @ profile_ops effort Technical_points_of_contact
                  @ profile_ops effort Work_location
                  @ [Hard_delete_effort (pk effort)],
                Inr (db', True))
           \<and> efforts db' = filter (\<lambda>e. pk e \<noteq> pk effort) (efforts db)
           \<and> filter (\<lambda>e. pk e = pk effort) (efforts db') = []
           \<and> filter (\<lambda>e. uuid e = v) (efforts db') = []
           \<and> (\<forall>X. profiles db' X =
                 (case local_id effort X of None \<Rightarrow> profiles db X
                  | Some k \<Rightarrow> (profiles db X)(k := None)))
           \<and> (\<forall>X k. local_id effort X = Some k \<longrightarrow> profiles db' X k = None)"
    by (intro exI[of _ db'] conjI r e e1 e2 pp gone)
qed

theorem delete_effort_outcomes_witness:
  "delete_effort_by_uuid (\<lambda>s. if s = ''bad'' then None else Some s) ''bad'' example_storage
     = ([], Inr (example_storage, False))
 \<and> delete_effort_by_uuid (\<lambda>s. if s = ''bad'' then None else Some s) ''w'' example_storage
     = ([Get_effort ''w''], Inr (example_storage, False))
 \<and> (\<exists>db'. delete_effort_by_uuid (\<lambda>s. if s = ''bad'' then None else Some s) ''u'' example_storage
             = ([Get_effort ''u'', Hard_delete_profile Statement_of_work_profile 1,
                 Hard_delete_effort 1], Inr (db', True))
           \<and> efforts db' = []
           \<and> profiles db' Statement_of_work_profile 1 = None)"
proof -
  let ?P = "\<lambda>s. if s = ''bad'' then None else Some s"
  note t = delete_effort_outcomes[of ?P _ example_storage]
  have 1: "delete_effort_by_uuid ?P ''bad'' example_storage = ([], Inr (example_storage, False))"
    using t[of "''bad''"] by simp
  have "filter (\<lambda>e. uuid e = ''w'') (efforts example_storage) = []"
    by (simp add: example_storage_def example_effort_def)
  then have 2: "delete_effort_by_uuid ?P ''w'' example_storage
                = ([Get_effort ''w''], Inr (example_storage, False))"
    using t[of "''w''"] by simp
  have f: "filter (\<lambda>e. uuid e = ''u'') (efforts example_storage) = [example_effort]"
    by (simp add: example_storage_def example_effort_def)
  have fk: "\<forall>X k. local_id example_effort X = Some k
              \<longrightarrow> k \<noteq> 0 \<and> profiles example_storage X k \<noteq> None"
    by (simp add: example_storage_def example_effort_def)
  have ops: "profile_ops example_effort Statement_of_work_profile
               = [Hard_delete_profile Statement_of_work_profile 1]"
      "profile_ops example_effort Developer_setup = []"
      "profile_ops example_effort Technical_points_of_contact = []"
      "profile_ops example_effort Work_location = []"
      "pk example_effort = 1"
      "local_id example_effort Statement_of_work_profile = Some 1"
    by (simp_all add: profile_ops_def example_effort_def)
  have h: "?P ''u'' = Some ''u'' \<and> filter (\<lambda>e. uuid e = ''u'') (efforts example_storage) = [example_effort]
        \<and> (\<forall>X k. local_id example_effort X = Some k
              \<longrightarrow> k \<noteq> 0 \<and> profiles example_storage X k \<noteq> None)"
    using f fk by simp
  from t[of "''u''", THEN conjunct2, THEN conjunct2, rule_format, of "''u''" example_effort, OF h]
  obtain db' where r: "delete_effort_by_uuid ?P ''u'' example_storage
             = (Get_effort ''u'' # profile_ops example_effort Statement_of_work_profile
                  @ profile_ops example_effort Developer_setup
                  @ profile_ops example_effort Technical_points_of_contact
                  @ profile_ops example_effort Work_location
                  @ [Hard_delete_effort (pk example_effort)],
                Inr (db', True))"
    and e: "efforts db' = filter (\<lambda>e. pk e \<noteq> pk example_effort) (efforts example_storage)"
    and g: "\<forall>X k. local_id example_effort X = Some k \<longrightarrow> profiles db' X k = None"
    by blast
  have r': "delete_effort_by_uuid ?P ''u'' example_storage
             = ([Get_effort ''u'', Hard_delete_profile Statement_of_work_profile 1,
                 Hard_delete_effort 1], Inr (db', True))"
    unfolding r by (simp add: ops)
  have e': "efforts db' = []"
    unfolding e by (simp add: example_storage_def)
  have g': "profiles db' Statement_of_work_profile 1 = None"
    using g ops(6) by blast
  from r' e' g'
  have "\<exists>db'. delete_effort_by_uuid ?P ''u'' example_storage
             = ([Get_effort ''u'', Hard_delete_profile Statement_of_work_profile 1,
                 Hard_delete_effort 1], Inr (db', True))
           \<and> efforts db' = []
           \<and> profiles db' Statement_of_work_profile 1 = None"
    by blast
  with 1 2 show ?thesis by blast
qed

end
